theory Spec2Isabelle
  imports Main "HOL-Library.Sublist"
begin

section \<open>The reactive system of \<^verbatim>\<open>src/main.js\<close>\<close>

subsection \<open>Values, effects and the state of one \<^verbatim>\<open>reactiveSystem()\<close> instance\<close>

text \<open>
  The values stored in the state container. \<open>Num n\<close> is a JavaScript number that holds
  the integer \<open>n\<close>; the development only uses integers that a double represents
  exactly. Property keys are strings that name own data properties of \<^verbatim>\<open>rawState\<close>;
  a property that was never written reads as \<open>Undefined\<close>, as \<^verbatim>\<open>Reflect.get\<close>
  returns it.
\<close>

datatype val = Undefined | Num int | NaN | Str string

type_synonym key = string

text \<open>
  An effect is a zero-argument closure. What the reactive system can see of its body is
  the sequence of proxied reads and writes it performs on \<^verbatim>\<open>state\<close>, each read
  deciding how the body goes on, and whether it ends by returning or by throwing:
  \<open>Read k f\<close> is \<^verbatim>\<open>state[k]\<close> followed by \<open>f v\<close> for the value \<open>v\<close> read,
  \<open>Write k v p\<close> is \<^verbatim>\<open>state[k] = v\<close> followed by \<open>p\<close>. So a body is covered
  when what it does depends on nothing but the values it reads from \<^verbatim>\<open>state\<close>
  and when it ends. Bodies that call \<^verbatim>\<open>useEffect\<close> themselves are not covered
  (the re-entrant use of the single \<^verbatim>\<open>currentEffect\<close> slot), nor are bodies that
  catch an exception or keep a state of their own. The number of an effect stands for
  the identity of the closure; the program never compares effects.
\<close>

datatype prog = Done | Raise | Read key "val \<Rightarrow> prog" | Write key val prog

datatype effect = Effect (ident: nat) (body: prog)

text \<open>
  The \<open>trace\<close> field is an observation log and not part of the program: it records, in
  order, every call \<^verbatim>\<open>effect()\<close>, every proxied read with the value returned and
  every proxied write. No operation reads it.
\<close>

datatype event = Invoked effect | Got key val | Put key val

text \<open>
  The closure variables of \<^verbatim>\<open>reactiveSystem\<close> and \<^verbatim>\<open>createOnSet\<close>.
  \<open>microtasks\<close> counts the callbacks passed to \<^verbatim>\<open>queueMicrotask\<close> that the host
  has not run yet.
\<close>

record sys =
  propertyKeyToEffectsMap :: "key \<rightharpoonup> effect list"
  currentEffect :: "effect option"
  effectsForFlush :: "effect list"
  queued :: bool
  rawState :: "key \<Rightarrow> val"
  microtasks :: nat
  trace :: "event list"

definition init_sys :: sys where
  "init_sys = \<lparr> propertyKeyToEffectsMap = Map.empty, currentEffect = None,
     effectsForFlush = [], queued = False, rawState = (\<lambda>_. Undefined),
     microtasks = 0, trace = [] \<rparr>"

text \<open>An operation either returns or throws; the state it leaves is kept in both cases.\<close>

datatype 'a outcome = Normal 'a | Threw 'a

fun state_of :: "'a outcome \<Rightarrow> 'a" where
  "state_of (Normal s) = s"
| "state_of (Threw s) = s"

subsection \<open>Read and write interception\<close>

text \<open>
  \<^verbatim>\<open>createOnGet\<close> (lines 94-106): create the entry if the key has none, then push the
  current effect when there is one.
\<close>

definition onGet :: "key \<Rightarrow> sys \<Rightarrow> sys" where
  "onGet propertyKey s =
     (let effects = (case propertyKeyToEffectsMap s propertyKey of None \<Rightarrow> [] | Some es \<Rightarrow> es)
      in s\<lparr> propertyKeyToEffectsMap := (propertyKeyToEffectsMap s)(propertyKey \<mapsto>
              (case currentEffect s of None \<Rightarrow> effects | Some e \<Rightarrow> effects @ [e])) \<rparr>)"

text \<open>
  The function returned by \<^verbatim>\<open>createOnSet\<close> (lines 130-145). The new value is not
  looked at.
\<close>

definition onSet :: "key \<Rightarrow> val \<Rightarrow> sys \<Rightarrow> sys" where
  "onSet propertyKey newValue s =
     (case propertyKeyToEffectsMap s propertyKey of
        None \<Rightarrow> s
      | Some effects \<Rightarrow>
          (let s1 = s\<lparr> effectsForFlush := effectsForFlush s @ effects \<rparr>
           in if \<not> queued s1 then s1\<lparr> queued := True, microtasks := microtasks s1 + 1 \<rparr>
              else s1))"

text \<open>The traps of the proxy (lines 153-165): the hook first, then the raw container.\<close>

definition proxy_get :: "key \<Rightarrow> sys \<Rightarrow> val \<times> sys" where
  "proxy_get propertyKey s =
     (let s1 = onGet propertyKey s; v = rawState s1 propertyKey
      in (v, s1\<lparr> trace := trace s1 @ [Got propertyKey v] \<rparr>))"

definition proxy_set :: "key \<Rightarrow> val \<Rightarrow> sys \<Rightarrow> sys" where
  "proxy_set propertyKey newValue s =
     (let s1 = onSet propertyKey newValue s
      in s1\<lparr> rawState := (rawState s1)(propertyKey := newValue),
              trace := trace s1 @ [Put propertyKey newValue] \<rparr>)"

subsection \<open>Running effects\<close>

primrec run :: "prog \<Rightarrow> sys \<Rightarrow> sys outcome" where
  "run Done s = Normal s"
| "run Raise s = Threw s"
| "run (Read k f) s = run (f (fst (proxy_get k s))) (snd (proxy_get k s))"
| "run (Write k v p) s = run p (proxy_set k v s)"

text \<open>The call \<^verbatim>\<open>effect()\<close>, logged.\<close>

definition invoke :: "effect \<Rightarrow> sys \<Rightarrow> sys outcome" where
  "invoke e s = run (body e) (s\<lparr> trace := trace s @ [Invoked e] \<rparr>)"

text \<open>
  \<^verbatim>\<open>useEffect\<close> (lines 85-89). There is no \<^verbatim>\<open>try\<close>: when the effect throws,
  the third statement is not reached.
\<close>

definition useEffect :: "effect \<Rightarrow> sys \<Rightarrow> sys outcome" where
  "useEffect e s =
     (case invoke e (s\<lparr> currentEffect := Some e \<rparr>) of
        Normal s1 \<Rightarrow> Normal (s1\<lparr> currentEffect := None \<rparr>)
      | Threw s1 \<Rightarrow> Threw s1)"

subsection \<open>The flush\<close>

text \<open>
  \<^verbatim>\<open>for (const effect of effectsForFlush) effect()\<close> (lines 122-124). The array
  iterator keeps an index and compares it with the current length before every step, so
  it reaches elements pushed while it runs. The loop need not end (an effect can enqueue
  itself again for ever), so it is given fuel: \<open>None\<close> means the fuel did not suffice.
\<close>

fun flush_loop :: "nat \<Rightarrow> nat \<Rightarrow> sys \<Rightarrow> sys outcome option" where
  "flush_loop 0 i s = None"
| "flush_loop (Suc n) i s =
     (if i < length (effectsForFlush s) then
        (case invoke (effectsForFlush s ! i) s of
           Normal s1 \<Rightarrow> flush_loop n (i + 1) s1
         | Threw s1 \<Rightarrow> Some (Threw s1))
      else Some (Normal s))"

text \<open>\<^verbatim>\<open>flush\<close> (lines 120-128): the loop, then \<^verbatim>\<open>effectsForFlush.length = 0\<close>.\<close>

definition flush :: "nat \<Rightarrow> sys \<Rightarrow> sys outcome option" where
  "flush n s =
     (case flush_loop n 0 s of
        None \<Rightarrow> None
      | Some (Threw s1) \<Rightarrow> Some (Threw s1)
      | Some (Normal s1) \<Rightarrow> Some (Normal (s1\<lparr> effectsForFlush := [] \<rparr>)))"

text \<open>
  The callback given to \<^verbatim>\<open>queueMicrotask\<close> (lines 139-142), run by the host once
  the current synchronous code has finished: \<^verbatim>\<open>queued = false\<close>, then
  \<^verbatim>\<open>flush()\<close>. The host takes the callback from its queue, which is where the
  count goes down; it runs a callback only while one is pending, so the count is
  positive whenever this happens in a run of the program.
\<close>

definition microtask :: "nat \<Rightarrow> sys \<Rightarrow> sys outcome option" where
  "microtask n s = flush n (s\<lparr> queued := False, microtasks := microtasks s - 1 \<rparr>)"

text \<open>A run of synchronous writes made by top-level code, in order.\<close>

fun sync_writes :: "(key \<times> val) list \<Rightarrow> sys \<Rightarrow> sys" where
  "sync_writes [] s = s"
| "sync_writes ((k, v) # ws) s = sync_writes ws (proxy_set k v s)"

text \<open>
  Calls of the effects of a list, one after the other, each in the state the call before
  it left, up to the first that throws.
\<close>

fun invoke_all :: "effect list \<Rightarrow> sys \<Rightarrow> sys outcome" where
  "invoke_all [] s = Normal s"
| "invoke_all (e # es) s =
     (case invoke e s of Normal s1 \<Rightarrow> invoke_all es s1 | Threw s1 \<Rightarrow> Threw s1)"

text \<open>
  The state in which the callback calls \<^verbatim>\<open>flush()\<close> (line 141): the host has taken
  the callback from its queue and \<^verbatim>\<open>queued = false\<close> has run.
\<close>

definition flush_start :: "sys \<Rightarrow> sys" where
  "flush_start s = s\<lparr> queued := False, microtasks := microtasks s - 1 \<rparr>"


subsection \<open>Reading the trace\<close>

text \<open>The effects called, in the order of the calls.\<close>

primrec invoked :: "event list \<Rightarrow> effect list" where
  "invoked [] = []"
| "invoked (ev # tr) =
     (case ev of Invoked e \<Rightarrow> e # invoked tr | Got k v \<Rightarrow> invoked tr | Put k v \<Rightarrow> invoked tr)"

text \<open>
  Replaying a piece of trace from a store: \<open>reads_ok tr store\<close> says that every read
  in \<open>tr\<close> returned the value written last before it (the value in \<open>store\<close> when
  \<open>tr\<close> has no earlier write of the key); \<open>store_after tr store\<close> is the store the
  writes of \<open>tr\<close> leave.
\<close>

primrec reads_ok :: "event list \<Rightarrow> (key \<Rightarrow> val) \<Rightarrow> bool" where
  "reads_ok [] store = True"
| "reads_ok (ev # tr) store =
     (case ev of
        Put k v \<Rightarrow> reads_ok tr (store(k := v))
      | Got k v \<Rightarrow> store k = v \<and> reads_ok tr store
      | Invoked e \<Rightarrow> reads_ok tr store)"

primrec store_after :: "event list \<Rightarrow> (key \<Rightarrow> val) \<Rightarrow> key \<Rightarrow> val" where
  "store_after [] store = store"
| "store_after (ev # tr) store =
     (case ev of
        Put k v \<Rightarrow> store_after tr (store(k := v))
      | Got k v \<Rightarrow> store_after tr store
      | Invoked e \<Rightarrow> store_after tr store)"

text \<open>What was logged between an earlier state and a later one.\<close>

definition since :: "sys \<Rightarrow> sys \<Rightarrow> event list" where
  "since s s' = drop (length (trace s)) (trace s')"

text \<open>The effects registered for a key: the list of its entry, empty when it has none.\<close>

definition entry :: "sys \<Rightarrow> key \<Rightarrow> effect list" where
  "entry s k = (case propertyKeyToEffectsMap s k of None \<Rightarrow> [] | Some es \<Rightarrow> es)"

definition returned_normally :: "sys outcome option \<Rightarrow> bool" where
  "returned_normally r = (case r of Some (Normal s) \<Rightarrow> True | Some (Threw s) \<Rightarrow> False | None \<Rightarrow> False)"

text \<open>
  The state after the host has run the pending flush callback, for a flush that ends
  within three steps; the state is left as it is when the flush does not.
\<close>

definition settled :: "sys \<Rightarrow> sys" where
  "settled s = (case microtask 3 s of Some r \<Rightarrow> state_of r | None \<Rightarrow> s)"

subsection \<open>The reference scenario\<close>

text \<open>
  Decimal digits of a natural number, the way \<^verbatim>\<open>String(n)\<close> and a template
  literal print a small non-negative integer.
\<close>

fun show_nat :: "nat \<Rightarrow> string" where
  "show_nat n =
     (if n < 10 then [''0123456789'' ! n]
      else show_nat (n div 10) @ [''0123456789'' ! (n mod 10)])"

declare show_nat.simps [simp del]

text \<open>
  \<^verbatim>\<open>ToString\<close> on the values of the model; for a number, the decimal form, which
  is what JavaScript prints for an integer below \<open>10\<^sup>2\<^sup>1\<close> in absolute value.
\<close>

fun to_string :: "val \<Rightarrow> string" where
  "to_string Undefined = ''undefined''"
| "to_string (Num n) = (if n < 0 then CHR ''-'' # show_nat (nat (- n)) else show_nat (nat n))"
| "to_string NaN = ''NaN''"
| "to_string (Str s) = s"

text \<open>
  The operator \<^verbatim>\<open>+\<close> on the values of the model: concatenation when an operand
  is a string, addition of two numbers, and \<^verbatim>\<open>NaN\<close> when \<^verbatim>\<open>undefined\<close> or
  \<^verbatim>\<open>NaN\<close> meets a number.
\<close>

fun js_add :: "val \<Rightarrow> val \<Rightarrow> val" where
  "js_add (Num a) (Num b) = Num (a + b)"
| "js_add (Str a) y = Str (a @ to_string y)"
| "js_add x (Str b) = Str (to_string x @ b)"
| "js_add x y = NaN"

text \<open>
  The effect of the demo (lines 246-248):
  \<^verbatim>\<open>() => { state.sum = state.foo + state.bar }\<close>.
\<close>

definition sum_effect :: effect where
  "sum_effect =
     Effect 0 (Read ''foo'' (\<lambda>a. Read ''bar'' (\<lambda>b. Write ''sum'' (js_add a b) Done)))"

text \<open>
  The states of \<^verbatim>\<open>reactiveSystemDemo\<close> (lines 240-270), in the order in which the
  host runs its pieces. The host's microtask queue is first-in first-out, so a flush
  callback queued by a write runs before a \<^verbatim>\<open>then\<close> callback registered after
  that write, and a flush callback queued during a flush runs after the
  \<^verbatim>\<open>then\<close> callback registered before that flush. \<open>settled\<close> runs the pending
  flush callback.
\<close>

text \<open>Lines 243-248: \<^verbatim>\<open>state.foo = 1; state.bar = 2; useEffect(...)\<close>.\<close>

definition demo_registered :: sys where
  "demo_registered =
     state_of (useEffect sum_effect
       (sync_writes [(''foo'', Num 1), (''bar'', Num 2)] init_sys))"

text \<open>Lines 250-252: the read of \<^verbatim>\<open>state.sum\<close> for the log, then \<^verbatim>\<open>state.foo = 2\<close>.\<close>

definition demo_foo2 :: sys where
  "demo_foo2 = sync_writes [(''foo'', Num 2)] (snd (proxy_get ''sum'' demo_registered))"

text \<open>
  Lines 253-256: the flush callback, then the first \<^verbatim>\<open>then\<close> callback, which
  reads \<^verbatim>\<open>state.sum\<close> and sets \<^verbatim>\<open>state.bar = 3\<close>.
\<close>

definition demo_bar3 :: sys where
  "demo_bar3 = sync_writes [(''bar'', Num 3)] (snd (proxy_get ''sum'' (settled demo_foo2)))"

text \<open>
  Lines 257-259: the next flush callback, then the inner \<^verbatim>\<open>then\<close> callback with
  its read of \<^verbatim>\<open>state.sum\<close>, then whatever flush callback is still pending.
\<close>

definition demo_idle :: sys where
  "demo_idle = settled (snd (proxy_get ''sum'' (settled demo_bar3)))"

text \<open>
  Lines 262-265, in the timer's turn: \<^verbatim>\<open>state.foo = 4; state.bar = 4\<close>, then
  the read of \<^verbatim>\<open>state.sum\<close> for the log.
\<close>

definition demo_both4 :: sys where
  "demo_both4 = sync_writes [(''foo'', Num 4), (''bar'', Num 4)] demo_idle"

subsection \<open>Two more systems\<close>

text \<open>
  A chain: the first effect reads \<^verbatim>\<open>a\<close> and writes \<^verbatim>\<open>b\<close>, the second
  reads \<^verbatim>\<open>b\<close> and writes \<^verbatim>\<open>c\<close>. Both are registered, then top-level code
  writes \<^verbatim>\<open>a\<close>.
\<close>

definition chain_first :: effect where
  "chain_first = Effect 1 (Read ''a'' (\<lambda>a. Write ''b'' (js_add a (Num 1)) Done))"

definition chain_second :: effect where
  "chain_second = Effect 2 (Read ''b'' (\<lambda>b. Write ''c'' b Done))"

definition chain_armed :: sys where
  "chain_armed =
     sync_writes [(''a'', Num 5)]
       (state_of (useEffect chain_second (state_of (useEffect chain_first init_sys))))"

text \<open>
  The state in which the loop of a flush ends, for a loop of at most three steps; the
  state is left as it is when the loop does not end in three steps.
\<close>

definition loop_end :: "sys \<Rightarrow> sys" where
  "loop_end s = (case flush_loop 3 0 s of Some r \<Rightarrow> state_of r | None \<Rightarrow> s)"

text \<open>
  An effect that throws as long as \<^verbatim>\<open>foo\<close> is undefined, registered before
  \<^verbatim>\<open>foo\<close> is written; then top-level code writes \<^verbatim>\<open>foo\<close>.
\<close>

definition guarded_effect :: effect where
  "guarded_effect =
     Effect 1 (Read ''foo'' (\<lambda>v. if v = Undefined then Raise else Write ''out'' v Done))"

definition guard_failed :: sys where
  "guard_failed = state_of (useEffect guarded_effect init_sys)"

definition guard_rerun :: sys where
  "guard_rerun = sync_writes [(''foo'', Num 7)] guard_failed"

text \<open>
  The chain with two writes of \<^verbatim>\<open>a\<close> in one turn, and the state in which the loop
  of the flush that follows ends, for a loop of at most five steps.
\<close>

definition chain_registered :: sys where
  "chain_registered = state_of (useEffect chain_second (state_of (useEffect chain_first init_sys)))"

definition chain_twice :: sys where
  "chain_twice = sync_writes [(''a'', Num 5), (''a'', Num 7)] chain_registered"

definition chain_twice_end :: sys where
  "chain_twice_end =
     (case flush_loop 5 0 chain_twice of Some r \<Rightarrow> state_of r | None \<Rightarrow> chain_twice)"

text \<open>
  The chain at rest, after the flush callback of the write of \<^verbatim>\<open>a\<close> and the further
  callback that the write of \<^verbatim>\<open>b\<close> in that flush scheduled; then top-level code
  writes \<^verbatim>\<open>a\<close> once more.
\<close>

definition chain_idle :: sys where
  "chain_idle = settled (settled chain_armed)"

definition chain_again :: sys where
  "chain_again = proxy_set ''a'' (Num 5) chain_idle"

section \<open>The template renderer of \<^verbatim>\<open>src/main.js\<close>\<close>

subsection \<open>Stub markers and their substitution\<close>

text \<open>The marker of line 208: \<^verbatim>\<open>`__stub-${index}__`\<close>.\<close>

definition stub :: "nat \<Rightarrow> string" where
  "stub index = ''__stub-'' @ show_nat index @ ''__''"

definition is_digit :: "char \<Rightarrow> bool" where
  "is_digit c = (c \<in> set ''0123456789'')"

definition after_prefix :: "string \<Rightarrow> string \<Rightarrow> string option" where
  "after_prefix p s = (if take (length p) s = p then Some (drop (length p) s) else None)"

text \<open>
  A match of \<^verbatim>\<open>/__stub-(\d+)__/\<close> at the very start of a string: the digits
  captured and the text after the match. \<^verbatim>\<open>\d+\<close> is greedy, and giving digits
  back cannot help, since a digit would then stand where an underscore must.
\<close>

definition match_stub :: "string \<Rightarrow> (string \<times> string) option" where
  "match_stub s =
     (case after_prefix ''__stub-'' s of
        None \<Rightarrow> None
      | Some r \<Rightarrow>
          (if takeWhile is_digit r = [] then None
           else (case after_prefix ''__'' (dropWhile is_digit r) of
                   None \<Rightarrow> None
                 | Some rest \<Rightarrow> Some (takeWhile is_digit r, rest))))"

definition nat_of_digits :: "string \<Rightarrow> nat" where
  "nat_of_digits ds = foldl (\<lambda>n c. 10 * n + (of_char c - 48)) 0 ds"

text \<open>
  \<^verbatim>\<open>valueOfStubs[index]\<close>, where \<^verbatim>\<open>index\<close> is the captured string: it names an
  element of the array only when it is the decimal form of a number below the length
  (so not with a leading zero); any other property of the array that digits can name
  is \<^verbatim>\<open>undefined\<close>.
\<close>

definition stub_value :: "val list \<Rightarrow> string \<Rightarrow> val" where
  "stub_value valueOfStubs index =
     (let n = nat_of_digits index
      in if show_nat n = index \<and> n < length valueOfStubs then valueOfStubs ! n
         else Undefined)"

text \<open>
  \<^verbatim>\<open>replaceStubs\<close> (lines 200-202): \<^verbatim>\<open>replace\<close> with a global pattern scans
  from the left; at a match it writes the replacer's result, converted to a string, and
  goes on after the match; elsewhere it copies one character.
\<close>

function replaceStubs :: "string \<Rightarrow> val list \<Rightarrow> string" where
  "replaceStubs stringWithStubs valueOfStubs =
     (case stringWithStubs of
        [] \<Rightarrow> []
      | c # cs \<Rightarrow>
          (case match_stub stringWithStubs of
             Some (index, rest) \<Rightarrow>
               to_string (stub_value valueOfStubs index) @ replaceStubs rest valueOfStubs
           | None \<Rightarrow> c # replaceStubs cs valueOfStubs))"
  by pat_completeness auto
termination
proof (relation "measure (\<lambda>(s, vs). length s)")
  show "wf (measure (\<lambda>(s, vs). length s))" by simp
next
  fix stringWithStubs :: string and valueOfStubs :: "val list" and c cs x2 index rest
  assume s: "stringWithStubs = c # cs" and m: "match_stub stringWithStubs = Some x2"
    and x: "(index, rest) = x2"
  from m x obtain r where r: "after_prefix ''__stub-'' stringWithStubs = Some r"
    and rest: "after_prefix ''__'' (dropWhile is_digit r) = Some rest"
    by (auto simp: match_stub_def split: option.splits if_splits)
  have split: "s = p @ t" if "after_prefix p s = Some t" for p s t
  proof -
    from that have "take (length p) s = p" and "t = drop (length p) s"
      by (auto simp: after_prefix_def split: if_splits)
    then show ?thesis
      by (metis append_take_drop_id)
  qed
  from split [OF r] have "length r \<le> length stringWithStubs"
    by simp
  moreover from split [OF rest] have "length rest < length (dropWhile is_digit r)"
    by simp
  moreover have "length (dropWhile is_digit r) \<le> length r"
    by (rule length_dropWhile_le)
  ultimately show "((rest, valueOfStubs), stringWithStubs, valueOfStubs)
      \<in> measure (\<lambda>(s, vs). length s)"
    by simp
next
  fix stringWithStubs :: string and valueOfStubs :: "val list" and c cs
  assume "stringWithStubs = c # cs"
  then show "((cs, valueOfStubs), stringWithStubs, valueOfStubs)
      \<in> measure (\<lambda>(s, vs). length s)"
    by simp
qed

declare replaceStubs.simps [simp del]

text \<open>Whether the pattern matches somewhere in a string.\<close>

primrec has_stub :: "string \<Rightarrow> bool" where
  "has_stub [] = False"
| "has_stub (c # cs) = (match_stub (c # cs) \<noteq> None \<or> has_stub cs)"

subsection \<open>The part of the DOM that \<^verbatim>\<open>html\<close> uses\<close>

text \<open>
  A node with the nodes below it: an element with its attributes (name and value, in
  order) and children, a text node, a comment.
\<close>

datatype node = Element string "(string \<times> string) list" "node list" | Text string | Comment string

text \<open>
  The getter of \<^verbatim>\<open>textContent\<close> on an element: the data of all text nodes below
  it, in tree order.
\<close>

fun textContent :: "node \<Rightarrow> string" where
  "textContent (Element tag attrs children) = concat (map textContent children)"
| "textContent (Text t) = t"
| "textContent (Comment c) = []"

text \<open>
  The setter of \<^verbatim>\<open>textContent\<close>: all children are replaced by one text node, or
  by nothing when the string is empty.
\<close>

fun set_textContent :: "string \<Rightarrow> node \<Rightarrow> node" where
  "set_textContent t (Element tag attrs children) =
     Element tag attrs (if t = [] then [] else [Text t])"
| "set_textContent t n = n"

text \<open>
  What the calls of the DOM in \<^verbatim>\<open>html\<close> can throw: \<^verbatim>\<open>element.attributes\<close> on
  \<^verbatim>\<open>null\<close> is a \<^verbatim>\<open>TypeError\<close>, and \<^verbatim>\<open>setAttribute\<close> throws an
  \<^verbatim>\<open>InvalidCharacterError\<close> for a name it does not accept.
\<close>

datatype dom_error = TypeError | InvalidCharacterError

text \<open>
  Setting the value of an attribute in the attribute list: the first attribute of that
  name gets the value in place; when there is none, an attribute is appended.
\<close>

fun set_attribute_value :: "string \<Rightarrow> string \<Rightarrow> (string \<times> string) list \<Rightarrow> (string \<times> string) list" where
  "set_attribute_value name v [] = [(name, v)]"
| "set_attribute_value name v ((n, old) # attrs) =
     (if n = name then (n, v) # attrs else (n, old) # set_attribute_value name v attrs)"

text \<open>
  \<^verbatim>\<open>setAttribute\<close>. The DOM checks the name first and throws for a name it does not
  accept, which can be a name the HTML parser has accepted and put on the element
  (\<^verbatim>\<open>=foo\<close>). The check is the host's; it is the parameter \<open>valid\<close>. The result is the
  error thrown, if any, and the attribute list as it is then. \<^verbatim>\<open>html\<close> only passes
  names it has read from the element, and these are compared as they are: for an element
  in the HTML namespace the DOM would lowercase the name first, and there the parser has
  lowercased the names already.
\<close>

definition setAttribute ::
    "(string \<Rightarrow> bool) \<Rightarrow> string \<Rightarrow> string \<Rightarrow> (string \<times> string) list
       \<Rightarrow> dom_error option \<times> (string \<times> string) list" where
  "setAttribute valid name v attrs =
     (if valid name then (None, set_attribute_value name v attrs)
      else (Some InvalidCharacterError, attrs))"

fun attributes :: "node \<Rightarrow> (string \<times> string) list" where
  "attributes (Element tag attrs children) = attrs"
| "attributes n = []"

fun childNodes :: "node \<Rightarrow> node list" where
  "childNodes (Element tag attrs children) = children"
| "childNodes n = []"

fun set_attributes :: "(string \<times> string) list \<Rightarrow> node \<Rightarrow> node" where
  "set_attributes attrs (Element tag old children) = Element tag attrs children"
| "set_attributes attrs n = n"

fun is_element :: "node \<Rightarrow> bool" where
  "is_element (Element tag attrs children) = True"
| "is_element n = False"

text \<open>\<^verbatim>\<open>firstElementChild\<close> of a fragment, and a change made to that child in place.\<close>

fun firstElementChild :: "node list \<Rightarrow> node option" where
  "firstElementChild [] = None"
| "firstElementChild (n # ns) = (if is_element n then Some n else firstElementChild ns)"

fun map_firstElementChild :: "(node \<Rightarrow> node) \<Rightarrow> node list \<Rightarrow> node list" where
  "map_firstElementChild f [] = []"
| "map_firstElementChild f (n # ns) =
     (if is_element n then f n # ns else n # map_firstElementChild f ns)"

subsection \<open>\<^verbatim>\<open>html\<close>\<close>

text \<open>
  The loop of lines 220-222 over the live attribute collection: at step \<open>i\<close> it reads
  the \<open>i\<close>-th attribute as it is then and sets the attribute of that name. The loop
  ends where \<^verbatim>\<open>setAttribute\<close> throws, and the attributes set before stay set. The
  result is the error thrown, if any, and the attribute list as it is then.
\<close>

primrec replace_attributes_loop ::
    "(string \<Rightarrow> bool) \<Rightarrow> val list \<Rightarrow> nat list \<Rightarrow> (string \<times> string) list
       \<Rightarrow> dom_error option \<times> (string \<times> string) list" where
  "replace_attributes_loop valid expressions [] attrs = (None, attrs)"
| "replace_attributes_loop valid expressions (i # indices) attrs =
     (case setAttribute valid (fst (attrs ! i)) (replaceStubs (snd (attrs ! i)) expressions) attrs of
        (None, attrs1) \<Rightarrow> replace_attributes_loop valid expressions indices attrs1
      | (Some err, attrs1) \<Rightarrow> (Some err, attrs1))"

definition replace_attributes ::
    "(string \<Rightarrow> bool) \<Rightarrow> val list \<Rightarrow> (string \<times> string) list
       \<Rightarrow> dom_error option \<times> (string \<times> string) list" where
  "replace_attributes valid expressions attrs =
     replace_attributes_loop valid expressions [0..<length attrs] attrs"

text \<open>
  Lines 219-225 on the element: the attributes, then the text content, which is not
  reached when the loop over the attributes throws. The result is the error thrown, if
  any, and the element as it is then.
\<close>

definition substitute :: "(string \<Rightarrow> bool) \<Rightarrow> val list \<Rightarrow> node \<Rightarrow> dom_error option \<times> node" where
  "substitute valid expressions element =
     (case replace_attributes valid expressions (attributes element) of
        (Some err, attrs1) \<Rightarrow> (Some err, set_attributes attrs1 element)
      | (None, attrs1) \<Rightarrow>
          (let e1 = set_attributes attrs1 element
           in (None, set_textContent (replaceStubs (textContent e1) expressions) e1)))"

text \<open>The element these lines leave when they do not throw.\<close>

definition substituted :: "(string \<Rightarrow> bool) \<Rightarrow> val list \<Rightarrow> node \<Rightarrow> node option" where
  "substituted valid expressions element =
     (case substitute valid expressions element of
        (None, e1) \<Rightarrow> Some e1
      | (Some err, e1) \<Rightarrow> None)"

text \<open>
  The array a tagged template passes first, with its identity (the key of the
  \<^verbatim>\<open>WeakMap\<close>): one array per call site.
\<close>

datatype tokens = Tokens (identity: nat) (strings: "string list")

text \<open>
  Lines 208-210: the markup with the markers. \<^verbatim>\<open>stubs[index - 1] ?? ''\<close> is the
  empty string for the first token and for a token that has no expression before it.
\<close>

definition htmlStringWithStubs :: "string list \<Rightarrow> val list \<Rightarrow> string" where
  "htmlStringWithStubs toks expressions =
     concat (map (\<lambda>index.
        (if 1 \<le> index \<and> index - 1 < length expressions then stub (index - 1) else [])
          @ toks ! index) [0..<length toks])"

text \<open>
  The closure variable \<^verbatim>\<open>tokensToTemplates\<close> and the DOM objects \<^verbatim>\<open>html\<close>
  creates: the content of a template, or a clone of it, lives at an address.
  \<open>parsed\<close> is an observation log and not part of the program: the strings assigned to
  \<^verbatim>\<open>innerHTML\<close> so far, each with the identity of the tokens it was built from.
\<close>

record renderer =
  tokensToTemplates :: "nat \<rightharpoonup> nat"
  fragments :: "nat \<rightharpoonup> node list"
  next_address :: nat
  parsed :: "(nat \<times> string) list"

definition init_renderer :: renderer where
  "init_renderer = \<lparr> tokensToTemplates = Map.empty, fragments = Map.empty,
     next_address = 0, parsed = [] \<rparr>"

text \<open>
  \<^verbatim>\<open>transformHTMLStringToTemplate\<close> (lines 193-198). The host's HTML parser is the
  parameter \<open>parser\<close>: the children of the template content for a markup string.
\<close>

definition transformHTMLStringToTemplate ::
    "(string \<Rightarrow> node list) \<Rightarrow> nat \<Rightarrow> string \<Rightarrow> renderer \<Rightarrow> nat \<times> renderer" where
  "transformHTMLStringToTemplate parser tokens_id htmlString r =
     (next_address r,
      r\<lparr> fragments := (fragments r)(next_address r \<mapsto> parser htmlString),
         next_address := next_address r + 1,
         parsed := parsed r @ [(tokens_id, htmlString)] \<rparr>)"

text \<open>
  \<^verbatim>\<open>html\<close> (lines 204-228). The result is the address of the cloned fragment whose
  first element child is the element returned; \<^verbatim>\<open>element.attributes\<close> throws a
  \<^verbatim>\<open>TypeError\<close> when the clone has no element child, and the call throws what
  \<^verbatim>\<open>setAttribute\<close> throws. The element is changed in place, in the clone, as far
  as lines 219-225 get. A template that is in the cache has its content at its address
  (\<open>renderer_ok\<close> below), so the empty list for an address without content is never
  what is cloned.
\<close>

definition html ::
    "(string \<Rightarrow> node list) \<Rightarrow> (string \<Rightarrow> bool) \<Rightarrow> tokens \<Rightarrow> val list \<Rightarrow> renderer
       \<Rightarrow> (dom_error + nat) \<times> renderer" where
  "html parser valid toks expressions r =
     (let (templateWithStubs, r1) =
            (case tokensToTemplates r (identity toks) of
               Some t \<Rightarrow> (t, r)
             | None \<Rightarrow>
                 (let (t, r0) = transformHTMLStringToTemplate parser (identity toks)
                        (htmlStringWithStubs (strings toks) expressions) r
                  in (t, r0\<lparr> tokensToTemplates := (tokensToTemplates r0)(identity toks \<mapsto> t) \<rparr>)));
          content = (case fragments r1 templateWithStubs of None \<Rightarrow> [] | Some ns \<Rightarrow> ns);
          clonedNodeWithStubs = next_address r1;
          r2 = r1\<lparr> fragments := (fragments r1)(clonedNodeWithStubs \<mapsto> content),
                    next_address := next_address r1 + 1 \<rparr>
      in (case firstElementChild content of
            None \<Rightarrow> (Inl TypeError, r2)
          | Some element \<Rightarrow>
              ((case fst (substitute valid expressions element) of
                  None \<Rightarrow> Inr clonedNodeWithStubs
                | Some err \<Rightarrow> Inl err),
               r2\<lparr> fragments := (fragments r2)(clonedNodeWithStubs \<mapsto>
                      map_firstElementChild (\<lambda>e. snd (substitute valid expressions e)) content) \<rparr>)))"

text \<open>The element a call of \<^verbatim>\<open>html\<close> returned, read from the state it left.\<close>

definition returned_element :: "(dom_error + nat) \<times> renderer \<Rightarrow> node option" where
  "returned_element res =
     (case fst res of
        Inl err \<Rightarrow> None
      | Inr a \<Rightarrow> (case fragments (snd res) a of None \<Rightarrow> None | Some ns \<Rightarrow> firstElementChild ns))"

text \<open>A series of calls of \<^verbatim>\<open>html\<close>, each with its tokens and expressions.\<close>

fun html_calls ::
    "(string \<Rightarrow> node list) \<Rightarrow> (string \<Rightarrow> bool) \<Rightarrow> (tokens \<times> val list) list \<Rightarrow> renderer
       \<Rightarrow> renderer" where
  "html_calls parser valid [] r = r"
| "html_calls parser valid ((toks, expressions) # calls) r =
     html_calls parser valid calls (snd (html parser valid toks expressions r))"

text \<open>
  \<^verbatim>\<open>render\<close> (lines 230-232), for the two values it reads from its argument, and
  the array its template literal passes: one object for the call site.
\<close>

definition render_tokens :: tokens where
  \<open>render_tokens = Tokens 0 [''<div class="'', ''">'', ''</div>'']\<close>

definition render ::
    "(string \<Rightarrow> node list) \<Rightarrow> (string \<Rightarrow> bool) \<Rightarrow> val \<Rightarrow> val \<Rightarrow> renderer
       \<Rightarrow> (dom_error + nat) \<times> renderer" where
  "render parser valid color text r = html parser valid render_tokens [color, text] r"

text \<open>
  A parser for the examples: what an HTML parser builds for the four markup strings
  used below, and nothing for any other string. In the last of them the parser reads
  \<^verbatim>\<open>=foo\<close> as the name of an attribute.
\<close>

definition example_parser :: "string \<Rightarrow> node list" where
  \<open>example_parser markup =
     (if markup = ''<div class="__stub-0__">__stub-1__</div>''
        then [Element ''div'' [(''class'', ''__stub-0__'')] [Text ''__stub-1__'']]
      else if markup = ''<p>__stub-7__</p>''
        then [Element ''p'' [] [Text ''__stub-7__'']]
      else if markup = ''<div id="a"><span>hi</span><b>!</b></div>''
        then [Element ''div'' [(''id'', ''a'')]
                [Element ''span'' [] [Text ''hi''], Element ''b'' [] [Text ''!'']]]
      else if markup = ''<div id="__stub-0__" =foo="__stub-1__">__stub-2__</div>''
        then [Element ''div'' [(''id'', ''__stub-0__''), (''=foo'', ''__stub-1__'')]
                [Text ''__stub-2__'']]
      else [])\<close>

text \<open>
  A check of attribute names for the examples, the one of the DOM standard: a name is
  accepted when it is not empty and holds no ASCII whitespace, no \<^verbatim>\<open>NUL\<close>, and
  none of \<^verbatim>\<open>/\<close>, \<^verbatim>\<open>=\<close> and \<^verbatim>\<open>>\<close>.
\<close>

definition valid_attribute_local_name :: "string \<Rightarrow> bool" where
  "valid_attribute_local_name name \<longleftrightarrow>
     name \<noteq> [] \<and>
     list_all (\<lambda>c. c \<notin> set [CHR 0x09, CHR 0x0A, CHR 0x0C, CHR 0x0D, CHR 0x20,
       CHR 0x00, CHR ''/'', CHR ''='', CHR ''>'']) name"

text \<open>
  What holds of every state of the renderer that calls of \<^verbatim>\<open>html\<close> lead to:
  addresses in use are below the next one, a cached template has its content, and the
  log of parses has one entry for each identity in the cache.
\<close>

definition renderer_ok :: "renderer \<Rightarrow> bool" where
  "renderer_ok r \<longleftrightarrow>
     (\<forall>a \<in> dom (fragments r). a < next_address r) \<and>
     ran (tokensToTemplates r) \<subseteq> dom (fragments r) \<and>
     distinct (map fst (parsed r)) \<and>
     fst ` set (parsed r) = dom (tokensToTemplates r)"

section \<open>Properties of the reactive system\<close>

subsection \<open>What the operations do to each field\<close>

lemma proxy_set_simps [simp]:
  "propertyKeyToEffectsMap (proxy_set k v s) = propertyKeyToEffectsMap s"
  "currentEffect (proxy_set k v s) = currentEffect s"
  "effectsForFlush (proxy_set k v s) = effectsForFlush s @ entry s k"
  "rawState (proxy_set k v s) = (rawState s)(k := v)"
  "trace (proxy_set k v s) = trace s @ [Put k v]"
  "queued (proxy_set k v s) = (queued s \<or> propertyKeyToEffectsMap s k \<noteq> None)"
  "microtasks (proxy_set k v s) =
     microtasks s + (if propertyKeyToEffectsMap s k \<noteq> None \<and> \<not> queued s then 1 else 0)"
  by (auto simp: proxy_set_def onSet_def entry_def Let_def split: option.splits)

lemma proxy_get_simps [simp]:
  "fst (proxy_get k s) = rawState s k"
  "propertyKeyToEffectsMap (snd (proxy_get k s)) =
     (propertyKeyToEffectsMap s)(k \<mapsto> entry s k @ (case currentEffect s of None \<Rightarrow> [] | Some e \<Rightarrow> [e]))"
  "currentEffect (snd (proxy_get k s)) = currentEffect s"
  "effectsForFlush (snd (proxy_get k s)) = effectsForFlush s"
  "rawState (snd (proxy_get k s)) = rawState s"
  "trace (snd (proxy_get k s)) = trace s @ [Got k (rawState s k)]"
  "queued (snd (proxy_get k s)) = queued s"
  "microtasks (snd (proxy_get k s)) = microtasks s"
  by (auto simp: proxy_get_def onGet_def entry_def Let_def split: option.splits)

lemma invoked_append [simp]: "invoked (xs @ ys) = invoked xs @ invoked ys"
  by (induction xs) (auto split: event.splits)

lemma reads_ok_append [simp]:
  "reads_ok (xs @ ys) st = (reads_ok xs st \<and> reads_ok ys (store_after xs st))"
  by (induction xs arbitrary: st) (auto split: event.splits)

lemma store_after_append [simp]:
  "store_after (xs @ ys) st = store_after ys (store_after xs st)"
  by (induction xs arbitrary: st) (auto split: event.splits)

lemma run_currentEffect [simp]: "currentEffect (state_of (run p s)) = currentEffect s"
  by (induction p arbitrary: s) auto

lemma run_trace:
  "\<exists>tr. trace (state_of (run p s)) = trace s @ tr \<and> invoked tr = [] \<and>
     reads_ok tr (rawState s) \<and> rawState (state_of (run p s)) = store_after tr (rawState s)"
proof (induction p arbitrary: s)
  case (Read k f)
  let ?s = "snd (proxy_get k s)" and ?p = "f (rawState s k)"
  have "\<exists>tr. trace (state_of (run ?p ?s)) = trace ?s @ tr \<and> invoked tr = [] \<and>
     reads_ok tr (rawState ?s) \<and> rawState (state_of (run ?p ?s)) = store_after tr (rawState ?s)"
    by (rule Read.IH) (rule rangeI)
  then obtain tr where "trace (state_of (run ?p ?s)) = trace ?s @ tr" "invoked tr = []"
    "reads_ok tr (rawState ?s)" "rawState (state_of (run ?p ?s)) = store_after tr (rawState ?s)"
    by blast
  then show ?case
    by (intro exI [of _ "Got k (rawState s k) # tr"]) simp
next
  case (Write k v p)
  let ?s = "proxy_set k v s"
  from Write.IH [of ?s]
  obtain tr where "trace (state_of (run p ?s)) = trace ?s @ tr" "invoked tr = []"
    "reads_ok tr (rawState ?s)" "rawState (state_of (run p ?s)) = store_after tr (rawState ?s)"
    by blast
  then show ?case
    by (intro exI [of _ "Put k v # tr"]) simp
qed auto


lemma run_queue: "prefix (effectsForFlush s) (effectsForFlush (state_of (run p s)))"
proof (induction p arbitrary: s)
  case (Read k f)
  have "prefix (effectsForFlush (snd (proxy_get k s)))
     (effectsForFlush (state_of (run (f (rawState s k)) (snd (proxy_get k s)))))"
    by (rule Read.IH) (rule rangeI)
  then show ?case by simp
next
  case (Write k v p)
  from Write.IH [of "proxy_set k v s"] show ?case
    by (auto dest: append_prefixD)
qed auto

lemma run_queued: "queued s \<Longrightarrow> queued (state_of (run p s))"
proof (induction p arbitrary: s)
  case (Read k f)
  have "queued (state_of (run (f (rawState s k)) (snd (proxy_get k s))))"
    by (rule Read.IH) (use Read.prems in auto)
  then show ?case by simp
qed auto

lemma run_microtasks:
  "microtasks (state_of (run p s)) =
     microtasks s + (if queued (state_of (run p s)) \<and> \<not> queued s then 1 else 0)"
proof (induction p arbitrary: s)
  case (Read k f)
  let ?s = "snd (proxy_get k s)" and ?p = "f (rawState s k)"
  have "microtasks (state_of (run ?p ?s)) =
     microtasks ?s + (if queued (state_of (run ?p ?s)) \<and> \<not> queued ?s then 1 else 0)"
    by (rule Read.IH) (rule rangeI)
  then show ?case by simp
next
  case (Write k v p)
  let ?s = "proxy_set k v s"
  let ?t = "state_of (run p ?s)"
  have ih: "microtasks ?t = microtasks ?s + (if queued ?t \<and> \<not> queued ?s then 1 else 0)"
    by (rule Write.IH)
  have mono: "queued ?s \<Longrightarrow> queued ?t"
    by (rule run_queued)
  have t: "run (Write k v p) s = run p ?s"
    by simp
  show ?case
  proof (cases "queued ?s")
    case True
    with mono ih show ?thesis
      unfolding t by (cases "queued s") simp_all
  next
    case False
    with ih show ?thesis
      unfolding t by simp
  qed
qed simp_all

lemma entry_proxy_get:
  "entry (snd (proxy_get k' s)) k =
     (if k = k' then entry s k @ (case currentEffect s of None \<Rightarrow> [] | Some e \<Rightarrow> [e])
      else entry s k)"
  by (simp add: entry_def)

lemma entry_proxy_set [simp]: "entry (proxy_set k' v s) k = entry s k"
  by (simp add: entry_def)

lemma run_entry_idle:
  "currentEffect s = None \<Longrightarrow> entry (state_of (run p s)) k = entry s k"
proof (induction p arbitrary: s)
  case (Read k' f)
  let ?s = "snd (proxy_get k' s)" and ?p = "f (rawState s k')"
  have "entry (state_of (run ?p ?s)) k = entry ?s k"
    by (rule Read.IH) (use Read.prems in auto)
  with Read.prems show ?case by (simp add: entry_proxy_get)
next
  case (Write k' v p)
  from Write.IH [of "proxy_set k' v s"] Write.prems show ?case by simp
qed auto

lemma run_entry_grow:
  "\<exists>es. entry (state_of (run p s)) k = entry s k @ es \<and>
     set es \<subseteq> set_option (currentEffect s)"
proof (induction p arbitrary: s)
  case (Read k' f)
  let ?s = "snd (proxy_get k' s)" and ?p = "f (rawState s k')"
  have "\<exists>es. entry (state_of (run ?p ?s)) k = entry ?s k @ es \<and>
     set es \<subseteq> set_option (currentEffect ?s)"
    by (rule Read.IH) (rule rangeI)
  then obtain es where es: "entry (state_of (run ?p ?s)) k = entry ?s k @ es"
    "set es \<subseteq> set_option (currentEffect s)" by auto
  show ?case
  proof (cases "k = k'")
    case True
    with es show ?thesis
      by (intro exI [of _ "(case currentEffect s of None \<Rightarrow> [] | Some e \<Rightarrow> [e]) @ es"])
        (auto simp: entry_proxy_get split: option.splits)
  next
    case False
    with es show ?thesis by (intro exI [of _ es]) (simp add: entry_proxy_get)
  qed
next
  case (Write k' v p)
  from Write.IH [of "proxy_set k' v s"] show ?case by simp
qed auto

lemma run_dom:
  "dom (propertyKeyToEffectsMap s) \<subseteq> dom (propertyKeyToEffectsMap (state_of (run p s)))"
proof (induction p arbitrary: s)
  case (Read k' f)
  let ?s = "snd (proxy_get k' s)" and ?p = "f (rawState s k')"
  have "dom (propertyKeyToEffectsMap ?s) \<subseteq> dom (propertyKeyToEffectsMap (state_of (run ?p ?s)))"
    by (rule Read.IH) (rule rangeI)
  then show ?case by auto
next
  case (Write k' v p)
  from Write.IH [of "proxy_set k' v s"] show ?case by simp
qed auto


lemma invoke_trace:
  "\<exists>tr. trace (state_of (invoke e s)) = trace s @ Invoked e # tr \<and> invoked tr = [] \<and>
     reads_ok tr (rawState s) \<and> rawState (state_of (invoke e s)) = store_after tr (rawState s)"
  using run_trace [of "body e" "s\<lparr>trace := trace s @ [Invoked e]\<rparr>"]
  by (auto simp: invoke_def)

lemma invoke_queue: "prefix (effectsForFlush s) (effectsForFlush (state_of (invoke e s)))"
  using run_queue [of "s\<lparr>trace := trace s @ [Invoked e]\<rparr>" "body e"]
  by (simp add: invoke_def)

lemma invoke_currentEffect [simp]: "currentEffect (state_of (invoke e s)) = currentEffect s"
  by (simp add: invoke_def)

lemma invoke_queued: "queued s \<Longrightarrow> queued (state_of (invoke e s))"
  using run_queued [of "s\<lparr>trace := trace s @ [Invoked e]\<rparr>" "body e"]
  by (simp add: invoke_def)

lemma invoke_microtasks:
  "microtasks (state_of (invoke e s)) =
     microtasks s + (if queued (state_of (invoke e s)) \<and> \<not> queued s then 1 else 0)"
  using run_microtasks [of "body e" "s\<lparr>trace := trace s @ [Invoked e]\<rparr>"]
  by (simp add: invoke_def)

lemma invoke_entry_idle:
  "currentEffect s = None \<Longrightarrow> entry (state_of (invoke e s)) k = entry s k"
  using run_entry_idle [of "s\<lparr>trace := trace s @ [Invoked e]\<rparr>" "body e" k]
  by (simp add: invoke_def entry_def)

lemma invoke_dom:
  "dom (propertyKeyToEffectsMap s) \<subseteq> dom (propertyKeyToEffectsMap (state_of (invoke e s)))"
  using run_dom [of "s\<lparr>trace := trace s @ [Invoked e]\<rparr>" "body e"]
  by (simp add: invoke_def)

lemma drop_nth_Cons: "i < length xs \<Longrightarrow> xs ! i = x \<Longrightarrow> drop i xs = x # drop (Suc i) xs"
  by (metis Cons_nth_drop_Suc)

lemma flush_loop_trace:
  "flush_loop n i s = Some r \<Longrightarrow>
     \<exists>tr. trace (state_of r) = trace s @ tr \<and> reads_ok tr (rawState s) \<and>
       rawState (state_of r) = store_after tr (rawState s) \<and>
       prefix (effectsForFlush s) (effectsForFlush (state_of r)) \<and>
       (case r of
          Normal s' \<Rightarrow> invoked tr = drop i (effectsForFlush s')
        | Threw s' \<Rightarrow> invoked tr \<noteq> [] \<and> prefix (invoked tr) (drop i (effectsForFlush s')))"
proof (induction n arbitrary: i s)
  case 0
  then show ?case by simp
next
  case (Suc n)
  show ?case
  proof (cases "i < length (effectsForFlush s)")
    case False
    with Suc.prems have "r = Normal s" by simp
    with False show ?thesis by simp
  next
    case True
    let ?e = "effectsForFlush s ! i"
    let ?s1 = "state_of (invoke ?e s)"
    obtain tr1 where tr1: "trace ?s1 = trace s @ Invoked ?e # tr1" "invoked tr1 = []"
      "reads_ok tr1 (rawState s)" "rawState ?s1 = store_after tr1 (rawState s)"
      using invoke_trace [of ?e s] by blast
    have q1: "prefix (effectsForFlush s) (effectsForFlush ?s1)"
      by (rule invoke_queue)
    then obtain ext where ext: "effectsForFlush ?s1 = effectsForFlush s @ ext"
      by (auto simp: prefix_def)
    with True have nth1: "effectsForFlush ?s1 ! i = ?e" and len1: "i < length (effectsForFlush ?s1)"
      by (simp_all add: nth_append)
    show ?thesis
    proof (cases "invoke ?e s")
      case (Threw s1)
      with Suc.prems True have r: "r = Threw s1" by simp
      from Threw have s1: "?s1 = s1" by simp
      from len1 nth1 have "drop i (effectsForFlush ?s1) = ?e # drop (Suc i) (effectsForFlush ?s1)"
        by (rule drop_nth_Cons)
      with tr1 q1 show ?thesis
        unfolding r s1 [symmetric]
        by (intro exI [of _ "Invoked ?e # tr1"]) simp
    next
      case (Normal s1)
      with Suc.prems True have rec: "flush_loop n (i + 1) s1 = Some r" by simp
      from Normal have s1: "?s1 = s1" by simp
      from Suc.IH [OF rec] obtain tr2 where tr2: "trace (state_of r) = trace s1 @ tr2"
        "reads_ok tr2 (rawState s1)" "rawState (state_of r) = store_after tr2 (rawState s1)"
        "prefix (effectsForFlush s1) (effectsForFlush (state_of r))"
        "(case r of
            Normal s' \<Rightarrow> invoked tr2 = drop (i + 1) (effectsForFlush s')
          | Threw s' \<Rightarrow> invoked tr2 \<noteq> [] \<and> prefix (invoked tr2) (drop (i + 1) (effectsForFlush s')))"
        by blast
      from tr2(4) obtain ext2 where ext2: "effectsForFlush (state_of r) = effectsForFlush s1 @ ext2"
        by (auto simp: prefix_def)
      with nth1 len1 have d: "drop i (effectsForFlush (state_of r))
          = ?e # drop (i + 1) (effectsForFlush (state_of r))"
        unfolding s1 by (intro drop_nth_Cons [unfolded Suc_eq_plus1]) (simp_all add: nth_append)
      from q1 tr2(4) have q: "prefix (effectsForFlush s) (effectsForFlush (state_of r))"
        unfolding s1 by (rule prefix_order.trans)
      show ?thesis
      proof (intro exI [of _ "Invoked ?e # tr1 @ tr2"] conjI)
        show "trace (state_of r) = trace s @ Invoked ?e # tr1 @ tr2"
          using tr1(1) tr2(1) unfolding s1 by simp
        show "reads_ok (Invoked ?e # tr1 @ tr2) (rawState s)"
          using tr1(3,4) tr2(2) unfolding s1 by simp
        show "rawState (state_of r) = store_after (Invoked ?e # tr1 @ tr2) (rawState s)"
          using tr1(4) tr2(3) unfolding s1 by simp
        show "prefix (effectsForFlush s) (effectsForFlush (state_of r))"
          by (rule q)
        show "case r of
            Normal s' \<Rightarrow> invoked (Invoked ?e # tr1 @ tr2) = drop i (effectsForFlush s')
          | Threw s' \<Rightarrow> invoked (Invoked ?e # tr1 @ tr2) \<noteq> [] \<and>
              prefix (invoked (Invoked ?e # tr1 @ tr2)) (drop i (effectsForFlush s'))"
          using tr2(5) d tr1(2) by (cases r) simp_all
      qed
    qed
  qed
qed

subsection \<open>The loop of the flush\<close>

lemma flush_loop_rel:
  assumes refl: "\<And>s. R s s"
    and trans: "\<And>a b c. R a b \<Longrightarrow> R b c \<Longrightarrow> R a c"
    and step: "\<And>e s. R s (state_of (invoke e s))"
    and loop: "flush_loop n i s = Some r"
  shows "R s (state_of r)"
  using loop
proof (induction n arbitrary: i s)
  case 0
  then show ?case by simp
next
  case (Suc n)
  show ?case
  proof (cases "i < length (effectsForFlush s)")
    case False
    with Suc.prems have "r = Normal s" by simp
    then show ?thesis by (simp add: refl)
  next
    case True
    let ?e = "effectsForFlush s ! i"
    show ?thesis
    proof (cases "invoke ?e s")
      case (Threw s1)
      with Suc.prems True have "r = Threw s1" by simp
      with Threw step [of s ?e] show ?thesis by simp
    next
      case (Normal s1)
      with Suc.prems True have "flush_loop n (i + 1) s1 = Some r" by simp
      then have "R s1 (state_of r)" by (rule Suc.IH)
      moreover from Normal step [of s ?e] have "R s s1" by simp
      ultimately show ?thesis by (rule trans [rotated])
    qed
  qed
qed

lemma flush_loop_more_fuel:
  "flush_loop n i s = Some r \<Longrightarrow> flush_loop (n + m) i s = Some r"
proof (induction n arbitrary: i s)
  case 0
  then show ?case by simp
next
  case (Suc n)
  show ?case
  proof (cases "i < length (effectsForFlush s)")
    case False
    with Suc.prems show ?thesis by simp
  next
    case True
    show ?thesis
    proof (cases "invoke (effectsForFlush s ! i) s")
      case (Threw s1)
      with Suc.prems True have "r = Threw s1" by simp
      with Threw True show ?thesis by simp
    next
      case (Normal s1)
      with Suc.prems True have "flush_loop n (i + 1) s1 = Some r" by simp
      then have "flush_loop (n + m) (i + 1) s1 = Some r" by (rule Suc.IH)
      with Normal True show ?thesis by simp
    qed
  qed
qed

lemma flush_loop_currentEffect:
  "flush_loop n i s = Some r \<Longrightarrow> currentEffect (state_of r) = currentEffect s"
  by (rule flush_loop_rel [where R = "\<lambda>a b. currentEffect b = currentEffect a"]) simp_all

lemma flush_loop_queued:
  "flush_loop n i s = Some r \<Longrightarrow> queued s \<Longrightarrow> queued (state_of r)"
  by (rule flush_loop_rel [where R = "\<lambda>a b. queued a \<longrightarrow> queued b", rule_format])
    (simp_all add: invoke_queued)

lemma flush_loop_microtasks:
  assumes "flush_loop n i s = Some r"
  shows "microtasks (state_of r) =
     microtasks s + (if queued (state_of r) \<and> \<not> queued s then 1 else 0)"
proof -
  let ?R = "\<lambda>a b. (queued a \<longrightarrow> queued b) \<and>
     microtasks b = microtasks a + (if queued b \<and> \<not> queued a then 1 else 0)"
  have "?R s (state_of r)"
  proof (rule flush_loop_rel [where R = ?R, OF _ _ _ assms])
    show "?R a a" for a by simp
    show "?R a c" if "?R a b" "?R b c" for a b c
      using that by (cases "queued a"; cases "queued b"; cases "queued c") simp_all
    show "?R a (state_of (invoke e a))" for e a
      using invoke_queued [of a e] invoke_microtasks [of e a] by blast
  qed
  then show ?thesis by blast
qed

lemma flush_loop_entry_idle:
  assumes "flush_loop n i s = Some r" and "currentEffect s = None"
  shows "entry (state_of r) k = entry s k"
proof -
  let ?R = "\<lambda>a b. currentEffect a = None \<longrightarrow> currentEffect b = None \<and> entry b k = entry a k"
  have "?R s (state_of r)"
  proof (rule flush_loop_rel [where R = ?R, OF _ _ _ assms(1)])
    show "?R a a" for a by simp
    show "?R a c" if "?R a b" "?R b c" for a b c
      using that by simp
    show "?R a (state_of (invoke e a))" for e a
      by (simp add: invoke_entry_idle)
  qed
  with assms(2) show ?thesis by blast
qed

lemma flush_loop_dom:
  assumes "flush_loop n i s = Some r"
  shows "dom (propertyKeyToEffectsMap s) \<subseteq> dom (propertyKeyToEffectsMap (state_of r))"
proof (rule flush_loop_rel [where R = "\<lambda>a b. dom (propertyKeyToEffectsMap a) \<subseteq> dom (propertyKeyToEffectsMap b)", OF _ _ _ assms])
  show "dom (propertyKeyToEffectsMap a) \<subseteq> dom (propertyKeyToEffectsMap (state_of (invoke e a)))" for e a
    by (rule invoke_dom)
qed (simp, erule (1) subset_trans)

lemma since_append: "trace s' = trace s @ tr \<Longrightarrow> since s s' = tr"
  by (simp add: since_def)

lemma flush_Some:
  "flush n s = Some r \<Longrightarrow>
     (\<exists>s1. flush_loop n 0 s = Some (Normal s1) \<and> r = Normal (s1\<lparr>effectsForFlush := []\<rparr>)) \<or>
     (\<exists>s1. flush_loop n 0 s = Some (Threw s1) \<and> r = Threw s1)"
  by (auto simp: flush_def split: option.splits outcome.splits)

subsection \<open>Synchronous writes and the flush callback\<close>

lemma sync_writes_trace [simp]:
  "trace (sync_writes ws s) = trace s @ map (\<lambda>(k, v). Put k v) ws"
  by (induction ws arbitrary: s) auto

lemma sync_writes_map [simp]:
  "propertyKeyToEffectsMap (sync_writes ws s) = propertyKeyToEffectsMap s"
  by (induction ws arbitrary: s) auto

lemma sync_writes_entry [simp]: "entry (sync_writes ws s) k = entry s k"
  by (simp add: entry_def)

lemma sync_writes_currentEffect [simp]:
  "currentEffect (sync_writes ws s) = currentEffect s"
  by (induction ws arbitrary: s) auto






lemma microtask_trace:
  assumes "microtask n s = Some r"
  shows "\<exists>tr. trace (state_of r) = trace s @ tr \<and> reads_ok tr (rawState s) \<and>
       rawState (state_of r) = store_after tr (rawState s) \<and>
       (case r of
          Normal s' \<Rightarrow> prefix (effectsForFlush s) (invoked tr) \<and> effectsForFlush s' = []
        | Threw s' \<Rightarrow> invoked tr \<noteq> [] \<and> prefix (invoked tr) (effectsForFlush s'))"
proof -
  let ?s0 = "s\<lparr>queued := False, microtasks := microtasks s - 1\<rparr>"
  from assms have "flush n ?s0 = Some r"
    by (simp add: microtask_def)
  then consider s1 where "flush_loop n 0 ?s0 = Some (Normal s1)" "r = Normal (s1\<lparr>effectsForFlush := []\<rparr>)"
    | s1 where "flush_loop n 0 ?s0 = Some (Threw s1)" "r = Threw s1"
    using flush_Some by blast
  then show ?thesis
  proof cases
    case 1
    from flush_loop_trace [OF 1(1)] 1(2) show ?thesis by auto
  next
    case 2
    from flush_loop_trace [OF 2(1)] 2(2) show ?thesis by auto
  qed
qed

lemma microtask_since:
  assumes "microtask n s = Some r"
  shows "trace (state_of r) = trace s @ since s (state_of r)"
  using microtask_trace [OF assms] by (auto simp: since_def)

lemma microtask_currentEffect:
  assumes "microtask n s = Some r"
  shows "currentEffect (state_of r) = currentEffect s"
proof -
  let ?s0 = "s\<lparr>queued := False, microtasks := microtasks s - 1\<rparr>"
  from assms have "flush n ?s0 = Some r"
    by (simp add: microtask_def)
  then consider s1 where "flush_loop n 0 ?s0 = Some (Normal s1)" "r = Normal (s1\<lparr>effectsForFlush := []\<rparr>)"
    | s1 where "flush_loop n 0 ?s0 = Some (Threw s1)" "r = Threw s1"
    using flush_Some by blast
  then show ?thesis
  proof cases
    case 1
    from flush_loop_currentEffect [OF 1(1)] 1(2) show ?thesis by simp
  next
    case 2
    from flush_loop_currentEffect [OF 2(1)] 2(2) show ?thesis by simp
  qed
qed

lemma microtask_entry_idle:
  assumes "microtask n s = Some r" and "currentEffect s = None"
  shows "entry (state_of r) k = entry s k"
proof -
  let ?s0 = "s\<lparr>queued := False, microtasks := microtasks s - 1\<rparr>"
  from assms have "flush n ?s0 = Some r"
    by (simp add: microtask_def)
  then consider s1 where "flush_loop n 0 ?s0 = Some (Normal s1)" "r = Normal (s1\<lparr>effectsForFlush := []\<rparr>)"
    | s1 where "flush_loop n 0 ?s0 = Some (Threw s1)" "r = Threw s1"
    using flush_Some by blast
  then show ?thesis
  proof cases
    case 1
    from flush_loop_entry_idle [OF 1(1), of k] 1(2) assms(2) show ?thesis by (simp add: entry_def)
  next
    case 2
    from flush_loop_entry_idle [OF 2(1), of k] 2(2) assms(2) show ?thesis by (simp add: entry_def)
  qed
qed

lemma microtask_microtasks:
  assumes "microtask n s = Some r"
  shows "microtasks (state_of r) = microtasks s - 1 + (if queued (state_of r) then 1 else 0)"
proof -
  let ?s0 = "s\<lparr>queued := False, microtasks := microtasks s - 1\<rparr>"
  from assms have "flush n ?s0 = Some r"
    by (simp add: microtask_def)
  then consider s1 where "flush_loop n 0 ?s0 = Some (Normal s1)" "r = Normal (s1\<lparr>effectsForFlush := []\<rparr>)"
    | s1 where "flush_loop n 0 ?s0 = Some (Threw s1)" "r = Threw s1"
    using flush_Some by blast
  then show ?thesis
  proof cases
    case 1
    from flush_loop_microtasks [OF 1(1)] 1(2) show ?thesis by simp
  next
    case 2
    from flush_loop_microtasks [OF 2(1)] 2(2) show ?thesis by simp
  qed
qed

lemma returned_normallyE:
  assumes "returned_normally r"
  obtains s where "r = Some (Normal s)"
  using assms by (auto simp: returned_normally_def split: option.splits outcome.splits)

lemma settled_eq: "microtask 3 s = Some r \<Longrightarrow> settled s = state_of r"
  by (simp add: settled_def)

subsection \<open>\<^verbatim>\<open>useEffect\<close>\<close>

lemma invoke_entry_grow:
  "\<exists>es. entry (state_of (invoke e s)) k = entry s k @ es \<and>
     set es \<subseteq> set_option (currentEffect s)"
  using run_entry_grow [of "body e" "s\<lparr>trace := trace s @ [Invoked e]\<rparr>" k]
  by (simp add: invoke_def entry_def)

lemma useEffect_Normal:
  assumes "useEffect e s = Normal s2"
  obtains s1 where "invoke e (s\<lparr>currentEffect := Some e\<rparr>) = Normal s1"
    and "s2 = s1\<lparr>currentEffect := None\<rparr>"
  using assms by (auto simp: useEffect_def split: outcome.splits)

lemma useEffect_Threw:
  "useEffect e s = Threw s1 \<longleftrightarrow> invoke e (s\<lparr>currentEffect := Some e\<rparr>) = Threw s1"
  by (auto simp: useEffect_def split: outcome.splits)

lemma useEffect_queued: "queued s \<Longrightarrow> queued (state_of (useEffect e s))"
  using invoke_queued [of "s\<lparr>currentEffect := Some e\<rparr>" e]
  by (auto simp: useEffect_def split: outcome.splits)

lemma loop_end_eq: "flush_loop 3 0 s = Some r \<Longrightarrow> loop_end s = state_of r"
  by (simp add: loop_end_def)

subsection \<open>The flush calls the effects of its queue\<close>

lemma flush_loop_invoke_all:
  "flush_loop n i s = Some r \<Longrightarrow> invoke_all (drop i (effectsForFlush (state_of r))) s = r"
proof (induction n arbitrary: i s)
  case 0
  then show ?case by simp
next
  case (Suc n)
  show ?case
  proof (cases "i < length (effectsForFlush s)")
    case False
    with Suc.prems have "r = Normal s" by simp
    with False show ?thesis by simp
  next
    case True
    let ?e = "effectsForFlush s ! i"
    from flush_loop_trace [OF Suc.prems]
    have "prefix (effectsForFlush s) (effectsForFlush (state_of r))" by blast
    then obtain ext where "effectsForFlush (state_of r) = effectsForFlush s @ ext"
      by (auto simp: prefix_def)
    with True have d: "drop i (effectsForFlush (state_of r)) = ?e # drop (Suc i) (effectsForFlush (state_of r))"
      by (intro drop_nth_Cons) (simp_all add: nth_append)
    show ?thesis
    proof (cases "invoke ?e s")
      case (Threw s1)
      with Suc.prems True have "r = Threw s1" by simp
      with Threw d show ?thesis by simp
    next
      case (Normal s1)
      with Suc.prems True have "flush_loop n (i + 1) s1 = Some r" by simp
      then have "invoke_all (drop (i + 1) (effectsForFlush (state_of r))) s1 = r"
        by (rule Suc.IH)
      with Normal d show ?thesis by simp
    qed
  qed
qed

lemma microtask_flush_start: "microtask n s = flush n (flush_start s)"
  by (simp add: microtask_def flush_start_def)

lemma flush_start_simps [simp]:
  "effectsForFlush (flush_start s) = effectsForFlush s"
  "trace (flush_start s) = trace s"
  "rawState (flush_start s) = rawState s"
  "currentEffect (flush_start s) = currentEffect s"
  "propertyKeyToEffectsMap (flush_start s) = propertyKeyToEffectsMap s"
  "queued (flush_start s) = False"
  "microtasks (flush_start s) = microtasks s - 1"
  by (simp_all add: flush_start_def)

lemma flush_loop_executes:
  assumes "flush_loop n 0 (flush_start s) = Some (Normal s1)"
  shows "microtask n s = Some (Normal (s1\<lparr>effectsForFlush := []\<rparr>))"
    and "prefix (effectsForFlush s) (effectsForFlush s1)"
    and "invoke_all (effectsForFlush s1) (flush_start s) = Normal s1"
proof -
  from assms show "microtask n s = Some (Normal (s1\<lparr>effectsForFlush := []\<rparr>))"
    by (simp add: microtask_flush_start flush_def)
  from flush_loop_trace [OF assms] show "prefix (effectsForFlush s) (effectsForFlush s1)"
    by auto
  from flush_loop_invoke_all [OF assms] show "invoke_all (effectsForFlush s1) (flush_start s) = Normal s1"
    by simp
qed

lemma microtask_Normal:
  assumes "microtask n s = Some (Normal s2)"
  obtains s1 where "flush_loop n 0 (flush_start s) = Some (Normal s1)"
    and "s2 = s1\<lparr>effectsForFlush := []\<rparr>"
  using assms flush_Some [of n "flush_start s" "Normal s2"]
  by (auto simp: microtask_flush_start)

section \<open>The claims about the reactive system\<close>



text \<open>
  C2. A flush consumes what is enqueued while it runs. For every loop of a flush that
  ends normally, in the state \<open>s1\<close> it ends in: the effects called by the loop are
  exactly the queue as it is then, in the order of the queue; that queue starts with the
  queue the loop began with and goes on with the effects appended during the pass, so
  these were called by the same pass, after the ones enqueued before them; then
  \<^verbatim>\<open>flush\<close> empties the queue, so nothing is left for a later callback; more
  fuel gives the same result. When an
  effect throws, the effects called so far are still a beginning of the queue. A write
  appends the whole list registered for its key to the queue.
\<close>

theorem flush_consumes_appended:
  "(flush_loop n 0 s = Some (Normal s1) \<longrightarrow>
      invoked (since s s1) = effectsForFlush s1 \<and>
      prefix (effectsForFlush s) (effectsForFlush s1) \<and>
      flush n s = Some (Normal (s1\<lparr>effectsForFlush := []\<rparr>)) \<and>
      (\<forall>m. flush_loop (n + m) 0 s = Some (Normal s1))) \<and>
   (flush_loop n 0 s = Some (Threw s1) \<longrightarrow>
      invoked (since s s1) \<noteq> [] \<and> prefix (invoked (since s s1)) (effectsForFlush s1) \<and>
      flush n s = Some (Threw s1)) \<and>
   effectsForFlush (proxy_set k v t) = effectsForFlush t @ entry t k"
proof (intro conjI impI)
  assume l: "flush_loop n 0 s = Some (Normal s1)"
  from flush_loop_trace [OF l] obtain tr where tr: "trace s1 = trace s @ tr"
    "prefix (effectsForFlush s) (effectsForFlush s1)" "invoked tr = effectsForFlush s1"
    by auto
  from tr(1) have "since s s1 = tr" by (rule since_append)
  with tr show "invoked (since s s1) = effectsForFlush s1"
    and "prefix (effectsForFlush s) (effectsForFlush s1)" by simp_all
  from l show "flush n s = Some (Normal (s1\<lparr>effectsForFlush := []\<rparr>))"
    by (simp add: flush_def)
  from l show "\<forall>m. flush_loop (n + m) 0 s = Some (Normal s1)"
    by (simp add: flush_loop_more_fuel)
next
  assume l: "flush_loop n 0 s = Some (Threw s1)"
  from flush_loop_trace [OF l] obtain tr where tr: "trace s1 = trace s @ tr"
    "invoked tr \<noteq> []" "prefix (invoked tr) (effectsForFlush s1)"
    by auto
  from tr(1) have "since s s1 = tr" by (rule since_append)
  with tr show "invoked (since s s1) \<noteq> []"
    and "prefix (invoked (since s s1)) (effectsForFlush s1)" by simp_all
  from l show "flush n s = Some (Threw s1)"
    by (simp add: flush_def)
next
  show "effectsForFlush (proxy_set k v t) = effectsForFlush t @ entry t k"
    by simp
qed

text \<open>
  The chain as an instance: the queue holds the first effect only; its write of
  \<^verbatim>\<open>b\<close> appends the second, and the same loop calls it.
\<close>

theorem flush_consumes_appended_witness:
  "map ident (effectsForFlush chain_armed) = [1] \<and>
   map ident (entry chain_armed ''b'') = [2] \<and>
   returned_normally (flush_loop 3 0 chain_armed) \<and>
   invoked (since chain_armed (loop_end chain_armed)) = effectsForFlush (loop_end chain_armed) \<and>
   map ident (effectsForFlush (loop_end chain_armed)) = [1, 2] \<and>
   returned_normally (flush 3 chain_armed)"
proof -
  have rn: "returned_normally (flush_loop 3 0 chain_armed)"
    by code_simp
  then obtain s1 where l: "flush_loop 3 0 chain_armed = Some (Normal s1)"
    by (rule returned_normallyE)
  then have e: "loop_end chain_armed = s1"
    by (simp add: loop_end_def)
  from flush_consumes_appended [of 3 chain_armed s1] l
  have "invoked (since chain_armed s1) = effectsForFlush s1"
    and "flush 3 chain_armed = Some (Normal (s1\<lparr>effectsForFlush := []\<rparr>))"
    by blast+
  moreover have "map ident (effectsForFlush chain_armed) = [1]"
    by code_simp
  moreover have "map ident (entry chain_armed ''b'') = [2]"
    by code_simp
  moreover have "map ident (effectsForFlush (loop_end chain_armed)) = [1, 2]"
    by code_simp
  ultimately show ?thesis
    using rn unfolding e by (simp add: returned_normally_def)
qed

text \<open>
  C3, as stated, fails. The claim says that \<open>queued\<close> stays true while the queued
  effects run and is reset only when the flush has exhausted the queue. In the scenario,
  after \<^verbatim>\<open>state.foo = 2\<close> the flag is set and one callback is pending; the callback
  resets the flag before it calls \<^verbatim>\<open>flush\<close>; the effect then writes
  \<^verbatim>\<open>sum\<close>, a key with an entry, which finds the flag false, sets it and schedules a
  second callback; when the flush has returned and the queue is empty, the flag is true
  and a callback is pending.
\<close>

theorem flag_during_flush_counterexample:
  "queued demo_foo2 \<and> microtasks demo_foo2 = 1 \<and>
   map ident (effectsForFlush demo_foo2) = [0] \<and>
   microtask 3 demo_foo2 = flush 3 (demo_foo2\<lparr>queued := False, microtasks := 0\<rparr>) \<and>
   returned_normally (microtask 3 demo_foo2) \<and>
   map ident (invoked (since demo_foo2 (settled demo_foo2))) = [0] \<and>
   map ident (effectsForFlush (settled demo_foo2)) = [] \<and>
   queued (settled demo_foo2) \<and> microtasks (settled demo_foo2) = 1"
proof -
  have m: "microtasks demo_foo2 = 1"
    by code_simp
  then have "microtask 3 demo_foo2 = flush 3 (demo_foo2\<lparr>queued := False, microtasks := 0\<rparr>)"
    by (simp add: microtask_def)
  moreover have "queued demo_foo2"
    by code_simp
  moreover have "map ident (effectsForFlush demo_foo2) = [0]"
    by code_simp
  moreover have "returned_normally (microtask 3 demo_foo2)"
    by code_simp
  moreover have "map ident (invoked (since demo_foo2 (settled demo_foo2))) = [0]"
    by code_simp
  moreover have "map ident (effectsForFlush (settled demo_foo2)) = []"
    by code_simp
  moreover have "queued (settled demo_foo2)"
    by code_simp
  moreover have "microtasks (settled demo_foo2) = 1"
    by code_simp
  ultimately show ?thesis
    using m by blast
qed

text \<open>
  C3, amended. A write to a key that has an entry sets \<open>queued\<close>, and the flag stays
  set through the reads, writes and \<^verbatim>\<open>useEffect\<close> calls of the turn. The deferred
  callback resets it before the flush: the first queued effect is called in a state where
  the flag is false. When the callback is over, the flag is true exactly when a further
  callback was scheduled during the flush. When the flush returns, the queue is empty.
\<close>

theorem flag_reset_before_flush:
  "(propertyKeyToEffectsMap s k \<noteq> None \<longrightarrow> queued (proxy_set k v s)) \<and>
   (queued s \<longrightarrow> queued (proxy_set k v s) \<and> queued (snd (proxy_get k s)) \<and>
      queued (state_of (useEffect e s))) \<and>
   microtask n s = flush n (s\<lparr>queued := False, microtasks := microtasks s - 1\<rparr>) \<and>
   (effectsForFlush s \<noteq> [] \<longrightarrow>
      microtask (Suc n) s =
        (case invoke (hd (effectsForFlush s)) (s\<lparr>queued := False, microtasks := microtasks s - 1\<rparr>) of
           Threw s1 \<Rightarrow> Some (Threw s1)
         | Normal s1 \<Rightarrow>
             (case flush_loop n 1 s1 of
                None \<Rightarrow> None
              | Some (Threw s2) \<Rightarrow> Some (Threw s2)
              | Some (Normal s2) \<Rightarrow> Some (Normal (s2\<lparr>effectsForFlush := []\<rparr>))))) \<and>
   (\<forall>r. microtask n s = Some r \<longrightarrow>
      microtasks (state_of r) = microtasks s - 1 + (if queued (state_of r) then 1 else 0)) \<and>
   (\<forall>s'. microtask n s = Some (Normal s') \<longrightarrow> effectsForFlush s' = [])"
proof (intro conjI impI allI)
  show "queued (proxy_set k v s)" if "propertyKeyToEffectsMap s k \<noteq> None"
    using that by simp
  show "queued (proxy_set k v s)" if "queued s"
    using that by simp
  show "queued (snd (proxy_get k s))" if "queued s"
    using that by simp
  show "queued (state_of (useEffect e s))" if "queued s"
    using that by (rule useEffect_queued)
  show "microtask n s = flush n (s\<lparr>queued := False, microtasks := microtasks s - 1\<rparr>)"
    by (simp add: microtask_def)
  show "microtask (Suc n) s =
        (case invoke (hd (effectsForFlush s)) (s\<lparr>queued := False, microtasks := microtasks s - 1\<rparr>) of
           Threw s1 \<Rightarrow> Some (Threw s1)
         | Normal s1 \<Rightarrow>
             (case flush_loop n 1 s1 of
                None \<Rightarrow> None
              | Some (Threw s2) \<Rightarrow> Some (Threw s2)
              | Some (Normal s2) \<Rightarrow> Some (Normal (s2\<lparr>effectsForFlush := []\<rparr>))))"
    if "effectsForFlush s \<noteq> []"
    using that by (simp add: microtask_def flush_def hd_conv_nth split: outcome.splits)
  show "microtasks (state_of r) = microtasks s - 1 + (if queued (state_of r) then 1 else 0)"
    if "microtask n s = Some r" for r
    using that by (rule microtask_microtasks)
  show "effectsForFlush s' = []" if "microtask n s = Some (Normal s')" for s'
    using microtask_trace [OF that] by auto
qed

text \<open>The first flush of the scenario as an instance.\<close>

theorem flag_reset_before_flush_witness:
  "map ident (entry demo_registered ''foo'') = [0] \<and>
   queued (proxy_set ''foo'' (Num 2) (snd (proxy_get ''sum'' demo_registered))) \<and>
   queued (proxy_set ''bar'' (Num 9) demo_foo2) \<and>
   map ident (effectsForFlush demo_foo2) = [0] \<and>
   returned_normally (microtask 3 demo_foo2) \<and>
   microtasks (settled demo_foo2) = microtasks demo_foo2 - 1 + (if queued (settled demo_foo2) then 1 else 0) \<and>
   effectsForFlush (settled demo_foo2) = []"
proof -
  let ?s = "snd (proxy_get ''sum'' demo_registered)"
  have e: "map ident (entry demo_registered ''foo'') = [0]"
    by code_simp
  then have "propertyKeyToEffectsMap ?s ''foo'' \<noteq> None"
    by (auto simp: entry_def split: option.splits)
  with flag_reset_before_flush [of ?s "''foo''" "Num 2"]
  have a: "queued (proxy_set ''foo'' (Num 2) ?s)"
    by blast
  then have q: "queued demo_foo2"
    by (simp add: demo_foo2_def)
  note inst = flag_reset_before_flush [of demo_foo2 "''bar''" "Num 9" sum_effect 3]
  from inst q have b: "queued (proxy_set ''bar'' (Num 9) demo_foo2)"
    by blast
  have ne: "map ident (effectsForFlush demo_foo2) = [0]"
    by code_simp
  have rn: "returned_normally (microtask 3 demo_foo2)"
    by code_simp
  then obtain s' where m: "microtask 3 demo_foo2 = Some (Normal s')"
    by (rule returned_normallyE)
  then have st: "settled demo_foo2 = s'"
    by (simp add: settled_def)
  from inst m have "microtasks (state_of (Normal s')) =
      microtasks demo_foo2 - 1 + (if queued (state_of (Normal s')) then 1 else 0)"
    by blast
  moreover from inst m have "effectsForFlush s' = []"
    by blast
  ultimately show ?thesis
    using e a b ne rn unfolding st by simp
qed

text \<open>
  C4, as stated, fails. The effect \<open>guarded_effect\<close> throws in its first run, so
  \<^verbatim>\<open>useEffect\<close> does not clear the slot. When \<^verbatim>\<open>foo\<close> is written afterwards,
  the flush calls the effect again with the slot still set to it, and its read of
  \<^verbatim>\<open>foo\<close> registers it a second time.
\<close>

theorem useEffect_slot_counterexample:
  "(case useEffect guarded_effect init_sys of
      Normal s \<Rightarrow> False
    | Threw s \<Rightarrow> map_option ident (currentEffect s) = Some 1) \<and>
   map ident (entry guard_rerun ''foo'') = [1] \<and>
   map_option ident (currentEffect guard_rerun) = Some 1 \<and>
   map ident (effectsForFlush guard_rerun) = [1] \<and>
   returned_normally (microtask 3 guard_rerun) \<and>
   map ident (invoked (since guard_rerun (settled guard_rerun))) = [1] \<and>
   map ident (entry (settled guard_rerun) ''foo'') = [1, 1]"
proof -
  have "(case useEffect guarded_effect init_sys of
      Normal s \<Rightarrow> False
    | Threw s \<Rightarrow> map_option ident (currentEffect s) = Some 1)"
    by code_simp
  moreover have "map ident (entry guard_rerun ''foo'') = [1]"
    by code_simp
  moreover have "map_option ident (currentEffect guard_rerun) = Some 1"
    by code_simp
  moreover have "map ident (effectsForFlush guard_rerun) = [1]"
    by code_simp
  moreover have "returned_normally (microtask 3 guard_rerun)"
    by code_simp
  moreover have "map ident (invoked (since guard_rerun (settled guard_rerun))) = [1]"
    by code_simp
  moreover have "map ident (entry (settled guard_rerun) ''foo'') = [1, 1]"
    by code_simp
  ultimately show ?thesis
    by blast
qed

text \<open>
  C4, amended. When \<^verbatim>\<open>useEffect(e)\<close> returns, it has set the slot to \<open>e\<close>, called
  \<open>e\<close> exactly once with the slot set to \<open>e\<close> throughout, and cleared the slot; what
  it added to the list of any key are copies of \<open>e\<close>. When the slot is empty, a read or
  a write by top-level code and a whole flush callback leave the list of every key as it
  was, and the slot empty: effects called again by a flush register nothing.
\<close>

theorem useEffect_registration:
  "(useEffect e s = Normal s2 \<longrightarrow>
      (\<exists>s1. invoke e (s\<lparr>currentEffect := Some e\<rparr>) = Normal s1 \<and> currentEffect s1 = Some e \<and>
         s2 = s1\<lparr>currentEffect := None\<rparr>) \<and>
      invoked (since s s2) = [e] \<and> currentEffect s2 = None \<and>
      (\<forall>k. \<exists>es. entry s2 k = entry s k @ es \<and> set es \<subseteq> {e})) \<and>
   (currentEffect s = None \<longrightarrow>
      (\<forall>k k' v. entry (snd (proxy_get k' s)) k = entry s k \<and> entry (proxy_set k' v s) k = entry s k) \<and>
      (\<forall>n r k. microtask n s = Some r \<longrightarrow>
         currentEffect (state_of r) = None \<and> entry (state_of r) k = entry s k))"
proof (intro conjI impI allI)
  assume u: "useEffect e s = Normal s2"
  let ?s0 = "s\<lparr>currentEffect := Some e\<rparr>"
  from u obtain s1 where s1: "invoke e ?s0 = Normal s1" and s2: "s2 = s1\<lparr>currentEffect := None\<rparr>"
    by (rule useEffect_Normal)
  from invoke_currentEffect [of e ?s0] s1 have c1: "currentEffect s1 = Some e"
    by simp
  with s1 s2 show "\<exists>s1. invoke e ?s0 = Normal s1 \<and> currentEffect s1 = Some e \<and>
      s2 = s1\<lparr>currentEffect := None\<rparr>"
    by blast
  from invoke_trace [of e ?s0] s1 obtain tr where "trace s1 = trace s @ Invoked e # tr"
    and "invoked tr = []" by auto
  with s2 show "invoked (since s s2) = [e]"
    by (simp add: since_def)
  from s2 show "currentEffect s2 = None"
    by simp
  show "\<exists>es. entry s2 k = entry s k @ es \<and> set es \<subseteq> {e}" for k
    using invoke_entry_grow [of e ?s0 k] s1 s2 by (auto simp: entry_def)
next
  assume idle: "currentEffect s = None"
  show "entry (snd (proxy_get k' s)) k = entry s k" for k k'
    using idle by (simp add: entry_proxy_get)
  show "entry (proxy_set k' v s) k = entry s k" for k k' v
    by simp
  show "currentEffect (state_of r) = None" if "microtask n s = Some r" for n r
    using microtask_currentEffect [OF that] idle by simp
  show "entry (state_of r) k = entry s k" if "microtask n s = Some r" for n r k
    using that idle by (rule microtask_entry_idle)
qed

text \<open>The registration and the last flush of the scenario as instances.\<close>

theorem useEffect_registration_witness:
  "returned_normally (Some (useEffect sum_effect
      (sync_writes [(''foo'', Num 1), (''bar'', Num 2)] init_sys))) \<and>
   invoked (since (sync_writes [(''foo'', Num 1), (''bar'', Num 2)] init_sys) demo_registered)
     = [sum_effect] \<and>
   currentEffect demo_registered = None \<and>
   map ident (entry demo_registered ''foo'') = [0] \<and>
   currentEffect demo_both4 = None \<and>
   returned_normally (microtask 3 demo_both4) \<and>
   currentEffect (settled demo_both4) = None \<and>
   entry (settled demo_both4) ''foo'' = entry demo_both4 ''foo'' \<and>
   map ident (entry (settled demo_both4) ''foo'') = [0]"
proof -
  let ?s = "sync_writes [(''foo'', Num 1), (''bar'', Num 2)] init_sys"
  have rn: "returned_normally (Some (useEffect sum_effect ?s))"
    by code_simp
  then obtain s2 where u: "useEffect sum_effect ?s = Normal s2"
    by (auto elim: returned_normallyE)
  then have d: "demo_registered = s2"
    by (simp add: demo_registered_def)
  from useEffect_registration [of sum_effect ?s s2] u
  have a: "invoked (since ?s s2) = [sum_effect]" "currentEffect s2 = None"
    by blast+
  have i: "map_option ident (currentEffect demo_both4) = None"
    by code_simp
  then have idle: "currentEffect demo_both4 = None"
    by simp
  have rn2: "returned_normally (microtask 3 demo_both4)"
    by code_simp
  then obtain s' where m: "microtask 3 demo_both4 = Some (Normal s')"
    by (rule returned_normallyE)
  then have st: "settled demo_both4 = s'"
    by (simp add: settled_def)
  from useEffect_registration [of sum_effect demo_both4 s2] idle m
  have b: "currentEffect (state_of (Normal s')) = None"
    "entry (state_of (Normal s')) ''foo'' = entry demo_both4 ''foo''"
    by blast+
  have e1: "map ident (entry demo_registered ''foo'') = [0]"
    by code_simp
  have e2: "map ident (entry (settled demo_both4) ''foo'') = [0]"
    by code_simp
  from a b rn rn2 idle e1 e2 show ?thesis
    unfolding d st by simp
qed

text \<open>
  C5. Registration is not deduplicated. A read of a key while an effect is in the slot
  appends that effect to the list of the key, whatever the list holds already, so two
  reads append it twice. A write appends the whole list of its key to the queue,
  repetitions included. A loop of a flush that ends normally has called every effect as
  many times as the queue holds it then, which is at least as many times as the queue
  held it at the start; the same bound holds for the whole callback. Such a loop is the
  calls of the effects of the queue it ends with, one after the other and repetitions
  included, from the state it started in, and that queue begins with the queue at the
  start; a callback that returns is such a run from the state in which \<^verbatim>\<open>flush()\<close>
  is called, followed by the emptying of the queue. In the chain with two writes of
  \<^verbatim>\<open>a\<close> in one turn the queue holds the first effect twice; the loop runs it twice,
  each run enqueues the second effect, and the loop ends with the four effects in the
  queue and with 8 in \<^verbatim>\<open>b\<close> and in \<^verbatim>\<open>c\<close>.
\<close>

theorem no_deduplication:
  "(currentEffect s = Some e \<longrightarrow>
      propertyKeyToEffectsMap (snd (proxy_get k s)) k = Some (entry s k @ [e]) \<and>
      entry (snd (proxy_get k (snd (proxy_get k s)))) k = entry s k @ [e, e]) \<and>
   effectsForFlush (proxy_set k v s) = effectsForFlush s @ entry s k \<and>
   (\<forall>n s1 x. flush_loop n 0 s = Some (Normal s1) \<longrightarrow>
      count_list (invoked (since s s1)) x = count_list (effectsForFlush s1) x \<and>
      count_list (effectsForFlush s) x \<le> count_list (invoked (since s s1)) x) \<and>
   (\<forall>n s2 x. microtask n s = Some (Normal s2) \<longrightarrow>
      count_list (effectsForFlush s) x \<le> count_list (invoked (since s s2)) x) \<and>
   (\<forall>n s1. flush_loop n 0 s = Some (Normal s1) \<longrightarrow>
      prefix (effectsForFlush s) (effectsForFlush s1) \<and>
      invoke_all (effectsForFlush s1) s = Normal s1) \<and>
   (\<forall>n s2. microtask n s = Some (Normal s2) \<longrightarrow>
      (\<exists>s1. prefix (effectsForFlush s) (effectsForFlush s1) \<and>
         invoke_all (effectsForFlush s1) (flush_start s) = Normal s1 \<and>
         s2 = s1\<lparr>effectsForFlush := []\<rparr>)) \<and>
   map ident (effectsForFlush chain_twice) = [1, 1] \<and>
   rawState chain_twice ''c'' = NaN \<and>
   returned_normally (flush_loop 5 0 chain_twice) \<and>
   map ident (effectsForFlush chain_twice_end) = [1, 1, 2, 2] \<and>
   rawState chain_twice_end ''b'' = Num 8 \<and>
   rawState chain_twice_end ''c'' = Num 8"
proof (intro conjI impI allI)
  assume c: "currentEffect s = Some e"
  then show "propertyKeyToEffectsMap (snd (proxy_get k s)) k = Some (entry s k @ [e])"
    by simp
  from c show "entry (snd (proxy_get k (snd (proxy_get k s)))) k = entry s k @ [e, e]"
    by (simp add: entry_proxy_get)
next
  show "effectsForFlush (proxy_set k v s) = effectsForFlush s @ entry s k"
    by simp
next
  fix n s1 x
  assume l: "flush_loop n 0 s = Some (Normal s1)"
  from flush_loop_trace [OF l] obtain tr where tr: "trace s1 = trace s @ tr"
    "prefix (effectsForFlush s) (effectsForFlush s1)" "invoked tr = effectsForFlush s1"
    by auto
  from tr(1) have eq: "since s s1 = tr" by (rule since_append)
  with tr(3) show "count_list (invoked (since s s1)) x = count_list (effectsForFlush s1) x"
    by simp
  from tr(2) obtain new where "effectsForFlush s1 = effectsForFlush s @ new"
    by (auto simp: prefix_def)
  with tr(3) eq show "count_list (effectsForFlush s) x \<le> count_list (invoked (since s s1)) x"
    by simp
next
  fix n s2 x
  assume m: "microtask n s = Some (Normal s2)"
  from microtask_trace [OF m] obtain tr where tr: "trace s2 = trace s @ tr"
    "prefix (effectsForFlush s) (invoked tr)"
    by auto
  from tr(1) have eq: "since s s2 = tr" by (rule since_append)
  from tr(2) obtain new where "invoked tr = effectsForFlush s @ new"
    by (auto simp: prefix_def)
  with eq show "count_list (effectsForFlush s) x \<le> count_list (invoked (since s s2)) x"
    by simp
next
  fix n s1
  assume l: "flush_loop n 0 s = Some (Normal s1)"
  from flush_loop_trace [OF l] show "prefix (effectsForFlush s) (effectsForFlush s1)"
    by auto
  from flush_loop_invoke_all [OF l] show "invoke_all (effectsForFlush s1) s = Normal s1"
    by simp
next
  fix n s2
  assume m: "microtask n s = Some (Normal s2)"
  then obtain s1 where l: "flush_loop n 0 (flush_start s) = Some (Normal s1)"
    and s2: "s2 = s1\<lparr>effectsForFlush := []\<rparr>"
    by (rule microtask_Normal)
  from flush_loop_executes(2,3) [OF l] s2
  show "\<exists>s1. prefix (effectsForFlush s) (effectsForFlush s1) \<and>
         invoke_all (effectsForFlush s1) (flush_start s) = Normal s1 \<and>
         s2 = s1\<lparr>effectsForFlush := []\<rparr>"
    by blast
next
  show "map ident (effectsForFlush chain_twice) = [1, 1]"
    by code_simp
  show "rawState chain_twice ''c'' = NaN"
    by code_simp
  show "returned_normally (flush_loop 5 0 chain_twice)"
    by code_simp
  show "map ident (effectsForFlush chain_twice_end) = [1, 1, 2, 2]"
    by code_simp
  show "rawState chain_twice_end ''b'' = Num 8"
    by code_simp
  show "rawState chain_twice_end ''c'' = Num 8"
    by code_simp
qed

text \<open>
  Two reads of \<^verbatim>\<open>foo\<close> with the effect of the scenario in the slot, and the last
  flush of the scenario, whose queue holds the effect twice, as instances. And the chain
  with two writes of \<^verbatim>\<open>a\<close> in one turn: the loop is the calls of the four effects
  of its final queue, from the state after the writes.
\<close>

theorem no_deduplication_witness:
  "propertyKeyToEffectsMap (snd (proxy_get ''foo'' (init_sys\<lparr>currentEffect := Some sum_effect\<rparr>))) ''foo''
     = Some [sum_effect] \<and>
   entry (snd (proxy_get ''foo'' (snd (proxy_get ''foo'' (init_sys\<lparr>currentEffect := Some sum_effect\<rparr>))))) ''foo''
     = [sum_effect, sum_effect] \<and>
   map ident (effectsForFlush demo_both4) = [0, 0] \<and>
   returned_normally (flush_loop 3 0 demo_both4) \<and>
   count_list (invoked (since demo_both4 (loop_end demo_both4))) sum_effect
     = count_list (effectsForFlush (loop_end demo_both4)) sum_effect \<and>
   map ident (invoked (since demo_both4 (loop_end demo_both4))) = [0, 0] \<and>
   returned_normally (microtask 3 demo_both4) \<and>
   count_list (effectsForFlush demo_both4) sum_effect
     \<le> count_list (invoked (since demo_both4 (settled demo_both4))) sum_effect \<and>
   (\<exists>s1. prefix (effectsForFlush demo_both4) (effectsForFlush s1) \<and>
      invoke_all (effectsForFlush s1) (flush_start demo_both4) = Normal s1 \<and>
      settled demo_both4 = s1\<lparr>effectsForFlush := []\<rparr>) \<and>
   map ident (effectsForFlush chain_twice) = [1, 1] \<and>
   rawState chain_twice ''a'' = Num 7 \<and>
   rawState chain_twice ''c'' = NaN \<and>
   returned_normally (flush_loop 5 0 chain_twice) \<and>
   invoke_all (effectsForFlush chain_twice_end) chain_twice = Normal chain_twice_end \<and>
   map ident (effectsForFlush chain_twice_end) = [1, 1, 2, 2] \<and>
   rawState chain_twice_end ''c'' = Num 8"
proof -
  let ?s = "init_sys\<lparr>currentEffect := Some sum_effect\<rparr>"
  have c: "currentEffect ?s = Some sum_effect"
    by simp
  have e: "entry ?s ''foo'' = []"
    by (simp add: entry_def init_sys_def)
  from no_deduplication [of ?s sum_effect "''foo''" "Num 4"]
  have "currentEffect ?s = Some sum_effect \<longrightarrow>
      propertyKeyToEffectsMap (snd (proxy_get ''foo'' ?s)) ''foo'' = Some (entry ?s ''foo'' @ [sum_effect]) \<and>
      entry (snd (proxy_get ''foo'' (snd (proxy_get ''foo'' ?s)))) ''foo'' = entry ?s ''foo'' @ [sum_effect, sum_effect]"
    by (elim conjE) assumption
  with c have a: "propertyKeyToEffectsMap (snd (proxy_get ''foo'' ?s)) ''foo'' = Some [sum_effect]"
    "entry (snd (proxy_get ''foo'' (snd (proxy_get ''foo'' ?s)))) ''foo'' = [sum_effect, sum_effect]"
    unfolding e by simp_all
  have rn: "returned_normally (flush_loop 3 0 demo_both4)"
    by code_simp
  then obtain s1 where l: "flush_loop 3 0 demo_both4 = Some (Normal s1)"
    by (rule returned_normallyE)
  then have le: "loop_end demo_both4 = s1"
    by (simp add: loop_end_def)
  have rn2: "returned_normally (microtask 3 demo_both4)"
    by code_simp
  then obtain s2 where m: "microtask 3 demo_both4 = Some (Normal s2)"
    by (rule returned_normallyE)
  then have st: "settled demo_both4 = s2"
    by (simp add: settled_def)
  note inst = no_deduplication [of demo_both4 sum_effect "''foo''" "Num 4"]
  from inst have "\<forall>n s1 x. flush_loop n 0 demo_both4 = Some (Normal s1) \<longrightarrow>
      count_list (invoked (since demo_both4 s1)) x = count_list (effectsForFlush s1) x \<and>
      count_list (effectsForFlush demo_both4) x \<le> count_list (invoked (since demo_both4 s1)) x"
    by (elim conjE) assumption
  with l have b: "count_list (invoked (since demo_both4 s1)) sum_effect
      = count_list (effectsForFlush s1) sum_effect"
    by blast
  from inst have "\<forall>n s2 x. microtask n demo_both4 = Some (Normal s2) \<longrightarrow>
      count_list (effectsForFlush demo_both4) x \<le> count_list (invoked (since demo_both4 s2)) x"
    by (elim conjE) assumption
  with m have d: "count_list (effectsForFlush demo_both4) sum_effect
      \<le> count_list (invoked (since demo_both4 s2)) sum_effect"
    by blast
  from inst have "\<forall>n s2. microtask n demo_both4 = Some (Normal s2) \<longrightarrow>
      (\<exists>s1. prefix (effectsForFlush demo_both4) (effectsForFlush s1) \<and>
         invoke_all (effectsForFlush s1) (flush_start demo_both4) = Normal s1 \<and>
         s2 = s1\<lparr>effectsForFlush := []\<rparr>)"
    by (elim conjE) assumption
  with m have y: "\<exists>s1. prefix (effectsForFlush demo_both4) (effectsForFlush s1) \<and>
      invoke_all (effectsForFlush s1) (flush_start demo_both4) = Normal s1 \<and>
      s2 = s1\<lparr>effectsForFlush := []\<rparr>"
    by blast
  have q: "map ident (effectsForFlush demo_both4) = [0, 0]"
    by code_simp
  have i: "map ident (invoked (since demo_both4 (loop_end demo_both4))) = [0, 0]"
    by code_simp
  have rn5: "returned_normally (flush_loop 5 0 chain_twice)"
    by code_simp
  then obtain s5 where l5: "flush_loop 5 0 chain_twice = Some (Normal s5)"
    by (rule returned_normallyE)
  then have ce: "chain_twice_end = s5"
    by (simp add: chain_twice_end_def)
  from no_deduplication [of chain_twice sum_effect "''a''" "Num 7"]
  have "\<forall>n s1. flush_loop n 0 chain_twice = Some (Normal s1) \<longrightarrow>
      prefix (effectsForFlush chain_twice) (effectsForFlush s1) \<and>
      invoke_all (effectsForFlush s1) chain_twice = Normal s1"
    by (elim conjE) assumption
  with l5 have x: "invoke_all (effectsForFlush s5) chain_twice = Normal s5"
    by blast
  have t1: "map ident (effectsForFlush chain_twice) = [1, 1]"
    and t2: "rawState chain_twice ''a'' = Num 7"
    and t3: "rawState chain_twice ''c'' = NaN"
    and t4: "map ident (effectsForFlush chain_twice_end) = [1, 1, 2, 2]"
    and t5: "rawState chain_twice_end ''c'' = Num 8"
    by code_simp+
  from a b d y q i rn rn2 rn5 x t1 t2 t3 t4 t5 show ?thesis
    unfolding le st ce by (intro conjI) assumption+
qed

text \<open>
  C9. When the effect throws in \<^verbatim>\<open>useEffect\<close>, the call throws and leaves the slot
  set to that effect, so that a read of any key registers the effect. A read, a write
  and a flush callback leave the slot as it is, so this goes on outside
  \<^verbatim>\<open>useEffect\<close>; a later \<^verbatim>\<open>useEffect\<close> call that returns leaves the slot
  empty, and one that throws leaves the slot set, to its own effect.
\<close>

theorem useEffect_throw_keeps_slot:
  "(useEffect e s = Threw s1 \<longrightarrow>
      invoke e (s\<lparr>currentEffect := Some e\<rparr>) = Threw s1 \<and> currentEffect s1 = Some e \<and>
      (\<forall>k. propertyKeyToEffectsMap (snd (proxy_get k s1)) k = Some (entry s1 k @ [e]))) \<and>
   (invoke e (s\<lparr>currentEffect := Some e\<rparr>) = Threw s1 \<longrightarrow> useEffect e s = Threw s1) \<and>
   currentEffect (snd (proxy_get k t)) = currentEffect t \<and>
   currentEffect (proxy_set k v t) = currentEffect t \<and>
   (\<forall>n r. microtask n t = Some r \<longrightarrow> currentEffect (state_of r) = currentEffect t) \<and>
   (\<forall>e' t'. useEffect e' t = Normal t' \<longrightarrow> currentEffect t' = None) \<and>
   (\<forall>e' t'. useEffect e' t = Threw t' \<longrightarrow> currentEffect t' = Some e')"
proof (intro conjI impI allI)
  assume u: "useEffect e s = Threw s1"
  then show i: "invoke e (s\<lparr>currentEffect := Some e\<rparr>) = Threw s1"
    by (simp add: useEffect_Threw)
  with invoke_currentEffect [of e "s\<lparr>currentEffect := Some e\<rparr>"]
  show c: "currentEffect s1 = Some e"
    by simp
  then show "propertyKeyToEffectsMap (snd (proxy_get k s1)) k = Some (entry s1 k @ [e])" for k
    by simp
next
  assume "invoke e (s\<lparr>currentEffect := Some e\<rparr>) = Threw s1"
  then show "useEffect e s = Threw s1"
    by (simp add: useEffect_Threw)
next
  show "currentEffect (snd (proxy_get k t)) = currentEffect t"
    by simp
  show "currentEffect (proxy_set k v t) = currentEffect t"
    by simp
  show "currentEffect (state_of r) = currentEffect t" if "microtask n t = Some r" for n r
    using that by (rule microtask_currentEffect)
  show "currentEffect t' = None" if "useEffect e' t = Normal t'" for e' t'
    using that by (auto elim: useEffect_Normal)
  show "currentEffect t' = Some e'" if "useEffect e' t = Threw t'" for e' t'
    using that invoke_currentEffect [of e' "t\<lparr>currentEffect := Some e'\<rparr>"]
    by (simp add: useEffect_Threw)
qed

text \<open>
  The effect that throws while \<^verbatim>\<open>foo\<close> is undefined as an instance: the slot stays
  set to it across a read, a write and a flush, until \<^verbatim>\<open>useEffect\<close> is called with
  the effect of the scenario.
\<close>

theorem useEffect_throw_keeps_slot_witness:
  "useEffect guarded_effect init_sys = Threw guard_failed \<and>
   currentEffect guard_failed = Some guarded_effect \<and>
   propertyKeyToEffectsMap (snd (proxy_get ''bar'' guard_failed)) ''bar'' = Some [guarded_effect] \<and>
   map ident (entry guard_failed ''foo'') = [1] \<and>
   returned_normally (microtask 3 guard_rerun) \<and>
   currentEffect (settled guard_rerun) = Some guarded_effect \<and>
   returned_normally (Some (useEffect sum_effect guard_rerun)) \<and>
   currentEffect (state_of (useEffect sum_effect guard_rerun)) = None"
proof -
  have "(case useEffect guarded_effect init_sys of Normal s \<Rightarrow> False | Threw s \<Rightarrow> True)"
    by code_simp
  then obtain s1 where u: "useEffect guarded_effect init_sys = Threw s1"
    by (auto split: outcome.splits)
  then have g: "guard_failed = s1"
    by (simp add: guard_failed_def)
  from useEffect_throw_keeps_slot [of guarded_effect init_sys s1] u
  have c: "currentEffect s1 = Some guarded_effect"
    and r: "propertyKeyToEffectsMap (snd (proxy_get ''bar'' s1)) ''bar'' = Some (entry s1 ''bar'' @ [guarded_effect])"
    by blast+
  have "map ident (entry guard_failed ''bar'') = []"
    by code_simp
  then have e: "entry s1 ''bar'' = []"
    unfolding g by simp
  have f: "map ident (entry guard_failed ''foo'') = [1]"
    by code_simp
  from useEffect_throw_keeps_slot [of guarded_effect init_sys s1 "''foo''" guard_failed "Num 7"] c
  have cr: "currentEffect guard_rerun = Some guarded_effect"
    unfolding g guard_rerun_def by simp
  have rn: "returned_normally (microtask 3 guard_rerun)"
    by code_simp
  then obtain s2 where m: "microtask 3 guard_rerun = Some (Normal s2)"
    by (rule returned_normallyE)
  then have st: "settled guard_rerun = s2"
    by (simp add: settled_def)
  note inst = useEffect_throw_keeps_slot [of guarded_effect init_sys s1 "''foo''" guard_rerun "Num 7"]
  from inst m have "currentEffect (state_of (Normal s2)) = currentEffect guard_rerun"
    by blast
  with cr have cs: "currentEffect s2 = Some guarded_effect"
    by simp
  have rn3: "returned_normally (Some (useEffect sum_effect guard_rerun))"
    by code_simp
  then obtain s3 where u3: "useEffect sum_effect guard_rerun = Normal s3"
    by (auto elim: returned_normallyE)
  with inst have "currentEffect s3 = None"
    by blast
  with u u3 c r e f rn rn3 cs show ?thesis
    unfolding g st by simp
qed

text \<open>
  C10. A write does not compare values. For a key that has an entry, every write,
  whatever the value, appends all registered effects to the queue and sets \<open>queued\<close>,
  scheduling a callback when none was pending; this holds in particular for the value
  the key holds already, where the store does not change, and the callback that follows,
  when it returns, has called every registered effect: it is the calls of the effects of
  a queue that begins with the queue before the write and the registered effects, one
  after the other from the state in which \<^verbatim>\<open>flush()\<close> is called, followed by the
  emptying of the queue. In the chain at rest, where \<^verbatim>\<open>a\<close> holds 5, \<^verbatim>\<open>b\<close> holds
  6 and no callback is pending, writing 5 to \<^verbatim>\<open>a\<close> schedules a callback; the
  callback returns, and in it the first effect runs and writes 6 to \<^verbatim>\<open>b\<close>, which
  enqueues the second effect and schedules a further callback.
\<close>

theorem no_change_detection:
  "(propertyKeyToEffectsMap s k = Some es \<longrightarrow>
     effectsForFlush (proxy_set k v s) = effectsForFlush s @ es \<and>
     queued (proxy_set k v s) \<and>
     microtasks (proxy_set k v s) = (if queued s then microtasks s else microtasks s + 1) \<and>
     rawState (proxy_set k (rawState s k) s) = rawState s \<and>
     effectsForFlush (proxy_set k (rawState s k) s) = effectsForFlush s @ es \<and>
     queued (proxy_set k (rawState s k) s) \<and>
     (\<forall>n s2. microtask n (proxy_set k (rawState s k) s) = Some (Normal s2) \<longrightarrow>
        set es \<subseteq> set (invoked (since (proxy_set k (rawState s k) s) s2))) \<and>
     (\<forall>n s2. microtask n (proxy_set k (rawState s k) s) = Some (Normal s2) \<longrightarrow>
        (\<exists>s1. prefix (effectsForFlush s @ es) (effectsForFlush s1) \<and>
           invoke_all (effectsForFlush s1) (flush_start (proxy_set k (rawState s k) s)) = Normal s1 \<and>
           s2 = s1\<lparr>effectsForFlush := []\<rparr>))) \<and>
   rawState chain_idle ''a'' = Num 5 \<and>
   rawState chain_idle ''b'' = Num 6 \<and>
   map ident (entry chain_idle ''a'') = [1] \<and>
   microtasks chain_idle = 0 \<and>
   microtasks chain_again = 1 \<and>
   returned_normally (microtask 3 chain_again) \<and>
   map ident (effectsForFlush (loop_end (flush_start chain_again))) = [1, 2] \<and>
   queued (settled chain_again) \<and>
   microtasks (settled chain_again) = 1"
proof (intro impI conjI allI)
  assume es: "propertyKeyToEffectsMap s k = Some es"
  then have en: "entry s k = es"
    by (simp add: entry_def)
  from en show "effectsForFlush (proxy_set k v s) = effectsForFlush s @ es"
    and q: "effectsForFlush (proxy_set k (rawState s k) s) = effectsForFlush s @ es"
    by simp_all
  from es show "queued (proxy_set k v s)" and "queued (proxy_set k (rawState s k) s)"
    by simp_all
  from es show "microtasks (proxy_set k v s) = (if queued s then microtasks s else microtasks s + 1)"
    by simp
  show "rawState (proxy_set k (rawState s k) s) = rawState s"
    by simp
  let ?s1 = "proxy_set k (rawState s k) s"
  {
    fix n s2
    assume m: "microtask n ?s1 = Some (Normal s2)"
    from microtask_trace [OF m] obtain tr where tr: "trace s2 = trace ?s1 @ tr"
      "prefix (effectsForFlush ?s1) (invoked tr)"
      by auto
    from tr(1) have eq: "since ?s1 s2 = tr" by (rule since_append)
    from tr(2) have "set (effectsForFlush ?s1) \<subseteq> set (invoked tr)"
      by (rule set_mono_prefix)
    with q eq show "set es \<subseteq> set (invoked (since ?s1 s2))"
      by simp
  }
  {
    fix n s2
    assume m: "microtask n ?s1 = Some (Normal s2)"
    then obtain s1 where l: "flush_loop n 0 (flush_start ?s1) = Some (Normal s1)"
      and s2: "s2 = s1\<lparr>effectsForFlush := []\<rparr>"
      by (rule microtask_Normal)
    from flush_loop_executes(2,3) [OF l] s2 q
    show "\<exists>s1. prefix (effectsForFlush s @ es) (effectsForFlush s1) \<and>
           invoke_all (effectsForFlush s1) (flush_start ?s1) = Normal s1 \<and>
           s2 = s1\<lparr>effectsForFlush := []\<rparr>"
      by auto
  }
next
  show "rawState chain_idle ''a'' = Num 5"
    by code_simp
  show "rawState chain_idle ''b'' = Num 6"
    by code_simp
  show "map ident (entry chain_idle ''a'') = [1]"
    by code_simp
  show "microtasks chain_idle = 0"
    by code_simp
  show "microtasks chain_again = 1"
    by code_simp
  show "returned_normally (microtask 3 chain_again)"
    by code_simp
  show "map ident (effectsForFlush (loop_end (flush_start chain_again))) = [1, 2]"
    by code_simp
  show "queued (settled chain_again)"
    by code_simp
  show "microtasks (settled chain_again) = 1"
    by code_simp
qed

text \<open>
  The chain at rest as an instance: \<^verbatim>\<open>a\<close> holds 5 and the first effect is
  registered for it. Writing 5 to \<^verbatim>\<open>a\<close> leaves the store as it is, enqueues the
  effect and schedules a callback; the callback returns and runs the effect, whose write
  of \<^verbatim>\<open>b\<close> (of the value it holds) enqueues the second effect and schedules a
  further callback.
\<close>

theorem no_change_detection_witness:
  "rawState chain_idle ''a'' = Num 5 \<and>
   rawState chain_idle ''b'' = Num 6 \<and>
   propertyKeyToEffectsMap chain_idle ''a'' = Some (entry chain_idle ''a'') \<and>
   map ident (entry chain_idle ''a'') = [1] \<and>
   \<not> queued chain_idle \<and> microtasks chain_idle = 0 \<and>
   rawState chain_again = rawState chain_idle \<and>
   effectsForFlush chain_again = effectsForFlush chain_idle @ entry chain_idle ''a'' \<and>
   queued chain_again \<and>
   microtasks chain_again = 1 \<and>
   returned_normally (microtask 3 chain_again) \<and>
   set (entry chain_idle ''a'') \<subseteq> set (invoked (since chain_again (settled chain_again))) \<and>
   (\<exists>s1. prefix (effectsForFlush chain_idle @ entry chain_idle ''a'') (effectsForFlush s1) \<and>
      invoke_all (effectsForFlush s1) (flush_start chain_again) = Normal s1 \<and>
      settled chain_again = s1\<lparr>effectsForFlush := []\<rparr>) \<and>
   map ident (effectsForFlush (loop_end (flush_start chain_again))) = [1, 2] \<and>
   queued (settled chain_again) \<and>
   microtasks (settled chain_again) = 1"
proof -
  let ?s = chain_idle
  have v: "rawState ?s ''a'' = Num 5" and vb: "rawState ?s ''b'' = Num 6"
    by code_simp+
  have e: "map ident (entry ?s ''a'') = [1]"
    by code_simp
  then have es: "propertyKeyToEffectsMap ?s ''a'' = Some (entry ?s ''a'')"
    by (auto simp: entry_def split: option.splits)
  have nq: "\<not> queued ?s" and mt: "microtasks ?s = 0"
    by code_simp+
  have ca: "proxy_set ''a'' (Num 5) ?s = chain_again"
    by (simp only: chain_again_def)
  have rn: "returned_normally (microtask 3 chain_again)"
    by code_simp
  then obtain s2 where m: "microtask 3 chain_again = Some (Normal s2)"
    by (rule returned_normallyE)
  then have st: "settled chain_again = s2"
    by (simp add: settled_def)
  note inst = no_change_detection [of ?s "''a''" "entry ?s ''a''" "Num 5", unfolded v ca, THEN conjunct1, THEN mp, OF es]
  from inst have a1: "rawState chain_again = rawState ?s"
    by (elim conjE) assumption
  from inst have a2: "effectsForFlush chain_again = effectsForFlush ?s @ entry ?s ''a''"
    by (elim conjE) assumption
  from inst have a3: "queued chain_again"
    by (elim conjE) assumption
  from inst have "microtasks chain_again = (if queued ?s then microtasks ?s else microtasks ?s + 1)"
    by (elim conjE) assumption
  with nq mt have a4: "microtasks chain_again = 1"
    by simp
  from inst have "\<forall>n s2. microtask n chain_again = Some (Normal s2) \<longrightarrow>
        set (entry ?s ''a'') \<subseteq> set (invoked (since chain_again s2))"
    by (elim conjE) assumption
  with m have a5: "set (entry ?s ''a'') \<subseteq> set (invoked (since chain_again s2))"
    by blast
  from inst have "\<forall>n s2. microtask n chain_again = Some (Normal s2) \<longrightarrow>
        (\<exists>s1. prefix (effectsForFlush ?s @ entry ?s ''a'') (effectsForFlush s1) \<and>
           invoke_all (effectsForFlush s1) (flush_start chain_again) = Normal s1 \<and>
           s2 = s1\<lparr>effectsForFlush := []\<rparr>)"
    by (elim conjE) assumption
  with m have a6: "\<exists>s1. prefix (effectsForFlush ?s @ entry ?s ''a'') (effectsForFlush s1) \<and>
           invoke_all (effectsForFlush s1) (flush_start chain_again) = Normal s1 \<and>
           s2 = s1\<lparr>effectsForFlush := []\<rparr>"
    by blast
  have p1: "map ident (effectsForFlush (loop_end (flush_start chain_again))) = [1, 2]"
    and p2: "queued (settled chain_again)"
    and p3: "microtasks (settled chain_again) = 1"
    by code_simp+
  from v vb es e nq mt a1 a2 a3 a4 rn a5 a6 p1 p2 p3 show ?thesis
    unfolding st by (intro conjI) assumption+
qed

section \<open>Properties of the renderer\<close>

subsection \<open>Markers\<close>

lemma digit_char: "d < 10 \<Longrightarrow> is_digit (''0123456789'' ! d)"
  unfolding is_digit_def by (rule nth_mem) simp

lemma of_char_digit: "d < 10 \<Longrightarrow> of_char (''0123456789'' ! d) - 48 = (d :: nat)"
proof -
  assume "d < 10"
  then have "d \<in> {0, 1, 2, 3, 4, 5, 6, 7, 8, 9}" by auto
  then show ?thesis
    by (elim insertE emptyE) simp_all
qed

lemma not_digit_underscore [simp]: "\<not> is_digit CHR ''_''"
  by (simp add: is_digit_def)

lemma show_nat_digits: "\<forall>c \<in> set (show_nat n). is_digit c"
proof (induction n rule: show_nat.induct)
  case (1 n)
  show ?case
  proof (cases "n < 10")
    case True
    then show ?thesis by (subst show_nat.simps) (simp add: digit_char)
  next
    case False
    with 1 show ?thesis by (subst show_nat.simps) (simp add: digit_char)
  qed
qed

lemma show_nat_not_Nil [simp]: "show_nat n \<noteq> []"
  by (subst show_nat.simps) simp

lemma nat_of_digits_snoc: "nat_of_digits (ds @ [c]) = 10 * nat_of_digits ds + (of_char c - 48)"
  by (simp add: nat_of_digits_def)


lemma nat_of_digits_show_nat [simp]: "nat_of_digits (show_nat n) = n"
proof (induction n rule: show_nat.induct)
  case (1 n)
  show ?case
  proof (cases "n < 10")
    case True
    then show ?thesis
      by (subst show_nat.simps) (simp add: nat_of_digits_def of_char_digit)
  next
    case False
    with 1 have "nat_of_digits (show_nat (n div 10)) = n div 10" by simp
    with False show ?thesis
      by (subst show_nat.simps) (simp add: nat_of_digits_snoc of_char_digit)
  qed
qed

lemma after_prefix_append [simp]: "after_prefix p (p @ s) = Some s"
  by (simp add: after_prefix_def)

lemma after_prefixD: "after_prefix p s = Some t \<Longrightarrow> s = p @ t"
  by (metis after_prefix_def append_take_drop_id option.distinct(1) option.inject)

lemma match_stub_stub [simp]: "match_stub (stub i @ rest) = Some (show_nat i, rest)"
proof -
  have "takeWhile is_digit (show_nat i @ ''__'' @ rest) = show_nat i"
    using show_nat_digits [of i] by (simp add: takeWhile_append2)
  moreover have "dropWhile is_digit (show_nat i @ ''__'' @ rest) = ''__'' @ rest"
    using show_nat_digits [of i] by (simp add: dropWhile_append2)
  ultimately show ?thesis
    unfolding match_stub_def stub_def by (simp del: append.simps add: append_assoc)
qed

lemma match_stubD:
  assumes "match_stub s = Some (ds, rest)"
  shows "s = ''__stub-'' @ ds @ ''__'' @ rest"
proof -
  from assms obtain r where r: "after_prefix ''__stub-'' s = Some r"
    and ds: "ds = takeWhile is_digit r"
    and rest: "after_prefix ''__'' (dropWhile is_digit r) = Some rest"
    by (auto simp: match_stub_def split: option.splits if_splits)
  from after_prefixD [OF rest] ds have "r = ds @ ''__'' @ rest"
    by (metis takeWhile_dropWhile_id)
  with after_prefixD [OF r] show ?thesis by simp
qed

lemma replaceStubs_Nil [simp]: "replaceStubs [] vs = []"
  by (subst replaceStubs.simps) simp

lemma replaceStubs_match:
  "match_stub s = Some (ds, rest) \<Longrightarrow>
     replaceStubs s vs = to_string (stub_value vs ds) @ replaceStubs rest vs"
  by (subst replaceStubs.simps) (auto dest: match_stubD split: list.splits)

lemma replaceStubs_no_match:
  "match_stub (c # cs) = None \<Longrightarrow> replaceStubs (c # cs) vs = c # replaceStubs cs vs"
  by (subst replaceStubs.simps) simp

lemma replaceStubs_no_stub: "\<not> has_stub s \<Longrightarrow> replaceStubs s vs = s"
proof (induction s)
  case Nil
  show ?case by simp
next
  case (Cons c cs)
  from Cons.prems have "match_stub (c # cs) = None" and "\<not> has_stub cs"
    by (simp_all del: not_None_eq)
  with Cons.IH show ?case
    by (simp add: replaceStubs_no_match)
qed

lemma stub_value_missing:
  "length vs \<le> i \<Longrightarrow> stub_value vs (show_nat i) = Undefined"
  by (simp add: stub_value_def)

lemma stub_value_present:
  "i < length vs \<Longrightarrow> stub_value vs (show_nat i) = vs ! i"
  by (simp add: stub_value_def)

lemma stub_value_update:
  "ds \<noteq> show_nat i \<Longrightarrow> stub_value (vs[i := v]) ds = stub_value vs ds"
proof (cases "nat_of_digits ds = i")
  case True
  assume "ds \<noteq> show_nat i"
  with True have "show_nat (nat_of_digits ds) \<noteq> ds" by auto
  then show ?thesis by (simp add: stub_value_def)
next
  case False
  then show ?thesis by (simp add: stub_value_def Let_def)
qed

lemma replaceStubs_unused:
  "\<not> sublist (stub i) s \<Longrightarrow> replaceStubs s (vs[i := v]) = replaceStubs s vs"
proof (induction s vs rule: replaceStubs.induct)
  case (1 s vs)
  show ?case
  proof (cases s)
    case Nil
    then show ?thesis by simp
  next
    case (Cons c cs)
    show ?thesis
    proof (cases "match_stub s")
      case None
      have "\<not> sublist (stub i) cs"
        using "1.prems" Cons by (auto simp: sublist_Cons_right)
      with "1.IH"(1) [OF Cons None] None Cons show ?thesis
        by (simp add: replaceStubs_no_match)
    next
      case (Some m)
      obtain ds rest where m: "m = (ds, rest)" by (cases m)
      from Some m have s: "s = ''__stub-'' @ ds @ ''__'' @ rest"
        by (auto dest: match_stubD)
      have "ds \<noteq> show_nat i"
      proof
        assume "ds = show_nat i"
        with s have "s = stub i @ rest" by (simp add: stub_def)
        then have "sublist (stub i) s" by (simp add: sublist_append_leftI)
        with "1.prems" show False by simp
      qed
      then have v: "stub_value (vs[i := v]) ds = stub_value vs ds"
        by (rule stub_value_update)
      have "\<not> sublist (stub i) rest"
      proof
        assume "sublist (stub i) rest"
        then obtain ps ss where "rest = ps @ stub i @ ss"
          by (auto simp: sublist_def)
        with s have "s = (''__stub-'' @ ds @ ''__'' @ ps) @ stub i @ ss"
          by simp
        then have "sublist (stub i) s"
          unfolding sublist_def by blast
        with "1.prems" show False by simp
      qed
      with "1.IH"(2) [OF Cons Some m [symmetric]]
      have "replaceStubs rest (vs[i := v]) = replaceStubs rest vs" .
      with v Some m show ?thesis
        by (simp add: replaceStubs_match)
    qed
  qed
qed

subsection \<open>Attributes and text\<close>

lemma set_attribute_value_nth:
  "distinct (map fst attrs) \<Longrightarrow> j < length attrs \<Longrightarrow>
     set_attribute_value (fst (attrs ! j)) v attrs = attrs[j := (fst (attrs ! j), v)]"
proof (induction attrs arbitrary: j)
  case Nil
  then show ?case by simp
next
  case (Cons a attrs)
  obtain n old where a: "a = (n, old)" by (cases a)
  show ?case
  proof (cases j)
    case 0
    with a show ?thesis by simp
  next
    case (Suc j')
    with Cons.prems have j': "j' < length attrs" by simp
    then have "fst (attrs ! j') \<in> fst ` set attrs" by (simp add: image_iff) (metis nth_mem fst_conv surj_pair)
    with Cons.prems a have "n \<noteq> fst (attrs ! j')" by auto
    moreover from Cons.prems have "distinct (map fst attrs)" by simp
    ultimately show ?thesis
      using Cons.IH [OF _ j'] a Suc by simp
  qed
qed

lemma replace_attributes_loop_append:
  "replace_attributes_loop valid es (xs @ ys) attrs =
     (case replace_attributes_loop valid es xs attrs of
        (None, attrs1) \<Rightarrow> replace_attributes_loop valid es ys attrs1
      | (Some err, attrs1) \<Rightarrow> (Some err, attrs1))"
  by (induction xs arbitrary: attrs) (auto split: prod.splits option.splits)

text \<open>The attribute list after \<open>j\<close> steps that did not throw.\<close>

lemma substituted_prefix:
  assumes "distinct (map fst attrs)" and "j < length attrs"
  shows "distinct (map fst (map (\<lambda>(n, v). (n, replaceStubs v es)) (take j attrs) @ drop j attrs))"
    and "(map (\<lambda>(n, v). (n, replaceStubs v es)) (take j attrs) @ drop j attrs) ! j = attrs ! j"
    and "set_attribute_value (fst (attrs ! j)) (replaceStubs (snd (attrs ! j)) es)
           (map (\<lambda>(n, v). (n, replaceStubs v es)) (take j attrs) @ drop j attrs)
         = map (\<lambda>(n, v). (n, replaceStubs v es)) (take (Suc j) attrs) @ drop (Suc j) attrs"
proof -
  let ?f = "\<lambda>(n, v). (n, replaceStubs v es)"
  let ?as = "map ?f (take j attrs) @ drop j attrs"
  note j = assms(2)
  have names: "map fst ?as = map fst attrs"
  proof -
    have "map fst (map ?f (take j attrs)) = map fst (take j attrs)"
      by (simp add: case_prod_unfold)
    then have "map fst ?as = map fst (take j attrs) @ map fst (drop j attrs)"
      by simp
    also have "\<dots> = map fst (take j attrs @ drop j attrs)"
      by (simp only: map_append)
    finally show ?thesis by simp
  qed
  show nth: "?as ! j = attrs ! j"
    using j by (simp add: nth_append)
  have len: "j < length ?as"
    using j by simp
  from assms(1) names show d: "distinct (map fst ?as)" by simp
  have "set_attribute_value (fst (?as ! j)) (replaceStubs (snd (?as ! j)) es) ?as
      = ?as[j := (fst (?as ! j), replaceStubs (snd (?as ! j)) es)]"
    using d len by (rule set_attribute_value_nth)
  also have "\<dots> = ?as[j := ?f (attrs ! j)]"
    unfolding nth by (simp add: case_prod_unfold)
  also have "\<dots> = map ?f (take (Suc j) attrs) @ drop (Suc j) attrs"
    using j by (simp add: list_update_append take_Suc_conv_app_nth drop_Suc upd_conv_take_nth_drop
        Cons_nth_drop_Suc [symmetric] min_def del: drop_Suc_Cons)
  finally show "set_attribute_value (fst (attrs ! j)) (replaceStubs (snd (attrs ! j)) es) ?as
      = map ?f (take (Suc j) attrs) @ drop (Suc j) attrs"
    unfolding nth .
qed

lemma replace_attributes_steps:
  assumes "distinct (map fst attrs)" and "j \<le> length attrs"
    and "\<forall>i < j. valid (fst (attrs ! i))"
  shows "replace_attributes_loop valid es [0..<j] attrs
     = (None, map (\<lambda>(n, v). (n, replaceStubs v es)) (take j attrs) @ drop j attrs)"
  using assms(2,3)
proof (induction j)
  case 0
  show ?case by simp
next
  case (Suc j)
  let ?f = "\<lambda>(n, v). (n, replaceStubs v es)"
  let ?as = "map ?f (take j attrs) @ drop j attrs"
  from Suc.prems have j: "j < length attrs" and v: "valid (fst (attrs ! j))"
    by simp_all
  from Suc.prems have "replace_attributes_loop valid es [0..<j] attrs = (None, ?as)"
    by (intro Suc.IH) simp_all
  moreover have "setAttribute valid (fst (?as ! j)) (replaceStubs (snd (?as ! j)) es) ?as
      = (None, map ?f (take (Suc j) attrs) @ drop (Suc j) attrs)"
    unfolding substituted_prefix(2) [OF assms(1) j]
    using v substituted_prefix(3) [OF assms(1) j, of es] by (simp add: setAttribute_def)
  ultimately show ?case
    by (simp add: replace_attributes_loop_append)
qed

lemma replace_attributes_map:
  assumes "distinct (map fst attrs)" and "\<forall>name \<in> fst ` set attrs. valid name"
  shows "replace_attributes valid es attrs = (None, map (\<lambda>(n, v). (n, replaceStubs v es)) attrs)"
proof -
  from assms(2) have "\<forall>i < length attrs. valid (fst (attrs ! i))"
    by simp
  with assms(1) show ?thesis
    unfolding replace_attributes_def by (simp add: replace_attributes_steps)
qed

lemma replace_attributes_throw:
  assumes "distinct (map fst attrs)" and "j < length attrs"
    and "\<not> valid (fst (attrs ! j))" and "\<forall>i < j. valid (fst (attrs ! i))"
  shows "replace_attributes valid es attrs
     = (Some InvalidCharacterError,
        map (\<lambda>(n, v). (n, replaceStubs v es)) (take j attrs) @ drop j attrs)"
proof -
  let ?f = "\<lambda>(n, v). (n, replaceStubs v es)"
  let ?as = "map ?f (take j attrs) @ drop j attrs"
  from assms(2) have "[0..<length attrs] = [0..<j] @ j # [Suc j..<length attrs]"
    by (metis le_add_diff_inverse less_imp_le_nat upt_add_eq_append upt_conv_Cons zero_le)
  moreover from assms(1,2,4) have "replace_attributes_loop valid es [0..<j] attrs = (None, ?as)"
    by (intro replace_attributes_steps) simp_all
  moreover have "setAttribute valid (fst (?as ! j)) (replaceStubs (snd (?as ! j)) es) ?as
      = (Some InvalidCharacterError, ?as)"
    unfolding substituted_prefix(2) [OF assms(1,2)]
    using assms(3) by (simp add: setAttribute_def)
  ultimately show ?thesis
    unfolding replace_attributes_def by (simp add: replace_attributes_loop_append)
qed

lemma substitute_Element:
  "substitute valid es (Element tag attrs children) =
     (case replace_attributes valid es attrs of
        (Some err, attrs1) \<Rightarrow> (Some err, Element tag attrs1 children)
      | (None, attrs1) \<Rightarrow>
          (None, Element tag attrs1
             (if replaceStubs (concat (map textContent children)) es = [] then []
              else [Text (replaceStubs (concat (map textContent children)) es)])))"
  by (simp add: substitute_def Let_def split: prod.splits option.splits)

lemma substitute_no_attributes:
  "substitute valid es (Element tag [] children) =
     (None, Element tag []
        (if replaceStubs (concat (map textContent children)) es = [] then []
         else [Text (replaceStubs (concat (map textContent children)) es)]))"
  by (simp add: substitute_Element replace_attributes_def)

lemma is_element_substitute [simp]:
  "is_element (snd (substitute valid es n)) = is_element n"
proof (cases n)
  case (Element tag attrs children)
  then show ?thesis
    by (simp add: substitute_Element split: prod.splits option.splits)
next
  case (Text t)
  then show ?thesis
    by (simp add: substitute_def replace_attributes_def)
next
  case (Comment c)
  then show ?thesis
    by (simp add: substitute_def replace_attributes_def)
qed

lemma substituted_fst:
  "substituted valid es e =
     (case fst (substitute valid es e) of
        None \<Rightarrow> Some (snd (substitute valid es e))
      | Some err \<Rightarrow> None)"
  by (simp add: substituted_def split: prod.splits option.splits)

lemma firstElementChild_map:
  "(\<And>n. is_element (f n) = is_element n) \<Longrightarrow>
     firstElementChild (map_firstElementChild f ns) = map_option f (firstElementChild ns)"
  by (induction ns) auto

subsection \<open>\<^verbatim>\<open>html\<close>: a miss compiles, then goes on like a hit\<close>

definition compiled :: "(string \<Rightarrow> node list) \<Rightarrow> tokens \<Rightarrow> val list \<Rightarrow> renderer \<Rightarrow> renderer" where
  "compiled parser toks es r =
     r\<lparr> fragments := (fragments r)(next_address r \<mapsto>
            parser (htmlStringWithStubs (strings toks) es)),
        next_address := next_address r + 1,
        parsed := parsed r @ [(identity toks, htmlStringWithStubs (strings toks) es)],
        tokensToTemplates := (tokensToTemplates r)(identity toks \<mapsto> next_address r) \<rparr>"

lemma html_hit:
  assumes "tokensToTemplates r (identity toks) = Some t" and "fragments r t = Some content"
  shows "html parser valid toks es r =
     (case firstElementChild content of
        None \<Rightarrow> (Inl TypeError,
          r\<lparr> fragments := (fragments r)(next_address r \<mapsto> content),
             next_address := next_address r + 1 \<rparr>)
      | Some element \<Rightarrow>
          ((case fst (substitute valid es element) of
              None \<Rightarrow> Inr (next_address r)
            | Some err \<Rightarrow> Inl err),
           r\<lparr> fragments := (fragments r)(next_address r \<mapsto>
                 map_firstElementChild (\<lambda>e. snd (substitute valid es e)) content),
              next_address := next_address r + 1 \<rparr>))"
  using assms by (simp add: html_def Let_def split: option.splits)

lemma html_miss:
  assumes "tokensToTemplates r (identity toks) = None"
  shows "html parser valid toks es r = html parser valid toks es (compiled parser toks es r)"
  using assms
  by (simp add: html_def compiled_def transformHTMLStringToTemplate_def Let_def
      split: option.splits)

lemma compiled_hit:
  "tokensToTemplates (compiled parser toks es r) (identity toks) = Some (next_address r)"
  "fragments (compiled parser toks es r) (next_address r) =
     Some (parser (htmlStringWithStubs (strings toks) es))"
  by (simp_all add: compiled_def)

lemma renderer_ok_init: "renderer_ok init_renderer"
  by (simp add: renderer_ok_def init_renderer_def)

lemma renderer_ok_compiled:
  assumes "renderer_ok r" and "tokensToTemplates r (identity toks) = None"
  shows "renderer_ok (compiled parser toks es r)"
proof -
  from assms have fresh: "identity toks \<notin> fst ` set (parsed r)"
    by (auto simp: renderer_ok_def)
  from assms(1) have "next_address r \<notin> dom (fragments r)"
    by (auto simp: renderer_ok_def)
  with assms(1) fresh show ?thesis
    unfolding renderer_ok_def compiled_def
    by (auto simp: ran_def less_Suc_eq split: if_splits)
qed

lemma returned_element_hit:
  assumes "tokensToTemplates r (identity toks) = Some t" and "fragments r t = Some content"
  shows "returned_element (html parser valid toks es r) =
     Option.bind (firstElementChild content) (substituted valid es)"
proof (cases "firstElementChild content")
  case None
  then show ?thesis
    unfolding html_hit [OF assms] by (simp add: returned_element_def)
next
  case (Some element)
  show ?thesis
  proof (cases "fst (substitute valid es element)")
    case None
    with Some show ?thesis
      unfolding html_hit [OF assms]
      by (simp add: returned_element_def firstElementChild_map substituted_fst)
  next
    case (Some err)
    with \<open>firstElementChild content = Some element\<close> show ?thesis
      unfolding html_hit [OF assms]
      by (simp add: returned_element_def substituted_fst)
  qed
qed

lemma html_state_hit:
  assumes "tokensToTemplates r (identity toks) = Some t" and "fragments r t = Some content"
  shows "tokensToTemplates (snd (html parser valid toks es r)) = tokensToTemplates r"
    and "parsed (snd (html parser valid toks es r)) = parsed r"
    and "next_address (snd (html parser valid toks es r)) = next_address r + 1"
    and "\<exists>ns. fragments (snd (html parser valid toks es r)) = (fragments r)(next_address r \<mapsto> ns)"
    and "fst (html parser valid toks es r) = Inr a \<Longrightarrow> a = next_address r"
  unfolding html_hit [OF assms]
  by (auto split: option.splits)

lemma renderer_ok_hit:
  assumes "renderer_ok r" and "tokensToTemplates r (identity toks) = Some t"
  shows "renderer_ok (snd (html parser valid toks es r))"
proof -
  from assms obtain content where c: "fragments r t = Some content"
    by (auto simp: renderer_ok_def ran_def)
  from html_state_hit(4) [OF assms(2) c, where parser = parser and valid = valid and es = es] obtain ns
    where ns: "fragments (snd (html parser valid toks es r)) = (fragments r)(next_address r \<mapsto> ns)"
    by blast
  from assms(1) show ?thesis
    unfolding renderer_ok_def html_state_hit(1-3) [OF assms(2) c] ns
    by (auto simp: ran_def less_Suc_eq)
qed

lemma renderer_ok_html:
  assumes "renderer_ok r"
  shows "renderer_ok (snd (html parser valid toks es r))"
proof (cases "tokensToTemplates r (identity toks)")
  case None
  then have "html parser valid toks es r = html parser valid toks es (compiled parser toks es r)"
    by (rule html_miss)
  moreover have "renderer_ok (snd (html parser valid toks es (compiled parser toks es r)))"
    using renderer_ok_compiled [OF assms None] compiled_hit(1)
    by (rule renderer_ok_hit)
  ultimately show ?thesis by simp
next
  case (Some t)
  with assms show ?thesis by (rule renderer_ok_hit)
qed

lemma renderer_ok_html_calls:
  "renderer_ok r \<Longrightarrow> renderer_ok (html_calls parser valid calls r)"
  by (induction calls arbitrary: r) (auto simp: renderer_ok_html)

lemma html_cached:
  assumes "renderer_ok r"
  shows "dom (tokensToTemplates (snd (html parser valid toks es r))) =
     insert (identity toks) (dom (tokensToTemplates r))"
proof (cases "tokensToTemplates r (identity toks)")
  case None
  let ?r = "compiled parser toks es r"
  have ok: "renderer_ok ?r"
    using assms None by (rule renderer_ok_compiled)
  then obtain content where c: "fragments ?r (next_address r) = Some content"
    by (simp add: compiled_hit)
  from html_miss [OF None, where parser = parser and valid = valid and es = es]
    html_state_hit(1) [OF compiled_hit(1) c, where parser = parser and valid = valid and es = es]
  show ?thesis
    by (simp add: compiled_def)
next
  case (Some t)
  with assms obtain content where c: "fragments r t = Some content"
    by (auto simp: renderer_ok_def ran_def)
  from html_state_hit(1) [OF Some c, where parser = parser and valid = valid and es = es] Some show ?thesis
    by auto
qed

lemma html_calls_cached:
  assumes "renderer_ok r"
  shows "dom (tokensToTemplates (html_calls parser valid calls r)) =
     dom (tokensToTemplates r) \<union> (identity \<circ> fst) ` set calls"
  using assms
proof (induction calls arbitrary: r)
  case Nil
  show ?case by simp
next
  case (Cons call calls)
  obtain toks es where call: "call = (toks, es)" by (cases call)
  from Cons.prems have ok: "renderer_ok (snd (html parser valid toks es r))"
    by (rule renderer_ok_html)
  from Cons.IH [OF ok] html_cached [OF Cons.prems, where parser = parser and valid = valid and toks = toks and es = es] show ?case
    unfolding call by auto
qed

section \<open>The claims about the renderer\<close>

text \<open>
  C6. A template is compiled once for each identity of the tokens. In every state that
  calls of \<^verbatim>\<open>html\<close> lead to from the start, and for the next call: the log of
  parses never holds two entries for one identity, before or after; the tokens of every
  earlier call are in the cache, and the tokens of this call are in it afterwards; a
  call whose tokens are not in the cache parses once, the markup built from its tokens;
  a call whose tokens are in the cache parses nothing and leaves the cache as it is, the
  content of the cached template is the same before and after, and the element returned
  is the first element of that content with the second pass applied, and none when that
  pass throws; the address returned is new, and everything that was at an address before
  (templates and nodes returned earlier) is unchanged. The host's parser and its check of
  attribute names are arbitrary.
\<close>

theorem template_compiled_once:
  "let r = html_calls parser valid calls init_renderer; res = html parser valid toks es r in
     distinct (map fst (parsed (snd res))) \<and>
     (\<forall>toks0 es0. (toks0, es0) \<in> set calls \<longrightarrow> tokensToTemplates r (identity toks0) \<noteq> None) \<and>
     tokensToTemplates (snd res) (identity toks) \<noteq> None \<and>
     (tokensToTemplates r (identity toks) = None \<longrightarrow>
        parsed (snd res) = parsed r @ [(identity toks, htmlStringWithStubs (strings toks) es)] \<and>
        returned_element res = Option.bind
          (firstElementChild (parser (htmlStringWithStubs (strings toks) es))) (substituted valid es)) \<and>
     (\<forall>t. tokensToTemplates r (identity toks) = Some t \<longrightarrow>
        parsed (snd res) = parsed r \<and>
        tokensToTemplates (snd res) = tokensToTemplates r \<and>
        (\<exists>content. fragments r t = Some content \<and> fragments (snd res) t = Some content \<and>
           returned_element res = Option.bind (firstElementChild content) (substituted valid es))) \<and>
     (\<forall>a. fst res = Inr a \<longrightarrow> a \<notin> dom (fragments r) \<and> a \<in> dom (fragments (snd res))) \<and>
     (\<forall>a \<in> dom (fragments r). fragments (snd res) a = fragments r a)"
proof -
  define r where "r = html_calls parser valid calls init_renderer"
  define res where "res = html parser valid toks es r"
  have ok: "renderer_ok r"
    unfolding r_def using renderer_ok_init by (rule renderer_ok_html_calls)
  have ok': "renderer_ok (snd res)"
    unfolding res_def using ok by (rule renderer_ok_html)
  have below: "a < next_address r" if "a \<in> dom (fragments r)" for a
    using ok that by (auto simp: renderer_ok_def)
  have 1: "distinct (map fst (parsed (snd res)))"
    using ok' by (simp add: renderer_ok_def)
  have 2: "tokensToTemplates r (identity toks0) \<noteq> None" if "(toks0, es0) \<in> set calls" for toks0 es0
  proof -
    from that have "identity toks0 \<in> (identity \<circ> fst) ` set calls"
      by force
    then have "identity toks0 \<in> dom (tokensToTemplates r)"
      unfolding r_def html_calls_cached [OF renderer_ok_init] by simp
    then show ?thesis by auto
  qed
  have 3: "tokensToTemplates (snd res) (identity toks) \<noteq> None"
    using html_cached [OF ok, where parser = parser and toks = toks and es = es]
    unfolding res_def by auto
  have hit: "parsed (snd res) = parsed r \<and>
        tokensToTemplates (snd res) = tokensToTemplates r \<and>
        (\<exists>content. fragments r t = Some content \<and> fragments (snd res) t = Some content \<and>
           returned_element res = Option.bind (firstElementChild content) (substituted valid es)) \<and>
        (\<forall>a. fst res = Inr a \<longrightarrow> a \<notin> dom (fragments r) \<and> a \<in> dom (fragments (snd res))) \<and>
        (\<forall>a \<in> dom (fragments r). fragments (snd res) a = fragments r a)"
    if t: "tokensToTemplates r (identity toks) = Some t" for t
  proof -
    from ok t obtain content where c: "fragments r t = Some content"
      by (auto simp: renderer_ok_def ran_def)
    note st = html_state_hit [OF t c, where parser = parser and valid = valid and es = es, folded res_def]
    note re = returned_element_hit [OF t c, where parser = parser and valid = valid and es = es, folded res_def]
    from st(4) obtain ns where ns: "fragments (snd res) = (fragments r)(next_address r \<mapsto> ns)"
      by blast
    from c have "t \<in> dom (fragments r)" by auto
    then have "t \<noteq> next_address r" using below by blast
    with c ns have "fragments (snd res) t = Some content" by simp
    moreover have "a \<notin> dom (fragments r) \<and> a \<in> dom (fragments (snd res))" if "fst res = Inr a" for a
      using st(5) [OF that] below [of a] ns by auto
    moreover have "fragments (snd res) a = fragments r a" if "a \<in> dom (fragments r)" for a
      using below [OF that] ns by simp
    ultimately show ?thesis
      using st(1,2) re c by blast
  qed
  have miss: "parsed (snd res) = parsed r @ [(identity toks, htmlStringWithStubs (strings toks) es)] \<and>
        returned_element res = Option.bind
          (firstElementChild (parser (htmlStringWithStubs (strings toks) es))) (substituted valid es) \<and>
        (\<forall>a. fst res = Inr a \<longrightarrow> a \<notin> dom (fragments r) \<and> a \<in> dom (fragments (snd res))) \<and>
        (\<forall>a \<in> dom (fragments r). fragments (snd res) a = fragments r a)"
    if none: "tokensToTemplates r (identity toks) = None"
  proof -
    let ?r = "compiled parser toks es r"
    let ?content = "parser (htmlStringWithStubs (strings toks) es)"
    have res: "res = html parser valid toks es ?r"
      unfolding res_def using none by (rule html_miss)
    have h1: "tokensToTemplates ?r (identity toks) = Some (next_address r)"
      and h2: "fragments ?r (next_address r) = Some ?content"
      by (rule compiled_hit)+
    note st = html_state_hit [OF h1 h2, where parser = parser and valid = valid and es = es, folded res]
    note re = returned_element_hit [OF h1 h2, where parser = parser and valid = valid and es = es, folded res]
    from st(4) obtain ns where ns: "fragments (snd res) = (fragments ?r)(next_address ?r \<mapsto> ns)"
      by blast
    have f: "fragments ?r = (fragments r)(next_address r \<mapsto> ?content)"
      and n: "next_address ?r = next_address r + 1"
      and p: "parsed ?r = parsed r @ [(identity toks, htmlStringWithStubs (strings toks) es)]"
      by (simp_all add: compiled_def)
    have "a \<notin> dom (fragments r) \<and> a \<in> dom (fragments (snd res))" if "fst res = Inr a" for a
      using st(5) [OF that] below [of a] ns n by auto
    moreover have "fragments (snd res) a = fragments r a" if "a \<in> dom (fragments r)" for a
      using below [OF that] ns n f by simp
    ultimately show ?thesis
      using st(2) re p by simp
  qed
  have 6: "\<forall>a. fst res = Inr a \<longrightarrow> a \<notin> dom (fragments r) \<and> a \<in> dom (fragments (snd res))"
    using hit miss by (cases "tokensToTemplates r (identity toks)") blast+
  have 7: "\<forall>a \<in> dom (fragments r). fragments (snd res) a = fragments r a"
    using hit miss by (cases "tokensToTemplates r (identity toks)") blast+
  from 1 2 3 hit miss 6 7 show ?thesis
    unfolding Let_def r_def [symmetric] res_def [symmetric] by blast
qed

text \<open>
  The two renders of the demo (lines 276-277) as an instance: the second call finds the
  template, parses nothing, and returns a new node with its own values.
\<close>

theorem template_compiled_once_witness:
  "tokensToTemplates (html_calls example_parser valid_attribute_local_name [(render_tokens, [Str ''red'', Str ''Red''])] init_renderer)
     (identity render_tokens) = Some 0 \<and>
   length (parsed (html_calls example_parser valid_attribute_local_name [(render_tokens, [Str ''red'', Str ''Red''])] init_renderer)) = 1 \<and>
   parsed (snd (render example_parser valid_attribute_local_name (Str ''blue'') (Str ''Blue'')
       (html_calls example_parser valid_attribute_local_name [(render_tokens, [Str ''red'', Str ''Red''])] init_renderer)))
     = parsed (html_calls example_parser valid_attribute_local_name [(render_tokens, [Str ''red'', Str ''Red''])] init_renderer) \<and>
   fst (render example_parser valid_attribute_local_name (Str ''blue'') (Str ''Blue'')
       (html_calls example_parser valid_attribute_local_name [(render_tokens, [Str ''red'', Str ''Red''])] init_renderer)) = Inr 2 \<and>
   2 \<notin> dom (fragments (html_calls example_parser valid_attribute_local_name [(render_tokens, [Str ''red'', Str ''Red''])] init_renderer)) \<and>
   returned_element (render example_parser valid_attribute_local_name (Str ''blue'') (Str ''Blue'')
       (html_calls example_parser valid_attribute_local_name [(render_tokens, [Str ''red'', Str ''Red''])] init_renderer))
     = Some (Element ''div'' [(''class'', ''blue'')] [Text ''Blue'']) \<and>
   returned_element (render example_parser valid_attribute_local_name (Str ''red'') (Str ''Red'') init_renderer)
     = Some (Element ''div'' [(''class'', ''red'')] [Text ''Red''])"
proof -
  let ?calls = "[(render_tokens, [Str ''red'', Str ''Red''])]"
  let ?r = "html_calls example_parser valid_attribute_local_name ?calls init_renderer"
  let ?res = "html example_parser valid_attribute_local_name render_tokens [Str ''blue'', Str ''Blue''] ?r"
  have c: "tokensToTemplates ?r (identity render_tokens) = Some 0"
    by code_simp
  have l: "length (parsed ?r) = 1"
    by code_simp
  have a: "fst ?res = Inr 2"
    by code_simp
  have e: "returned_element ?res = Some (Element ''div'' [(''class'', ''blue'')] [Text ''Blue''])"
    by code_simp
  have e0: "returned_element (html example_parser valid_attribute_local_name render_tokens [Str ''red'', Str ''Red''] init_renderer)
      = Some (Element ''div'' [(''class'', ''red'')] [Text ''Red''])"
    by code_simp
  note inst = template_compiled_once [of example_parser valid_attribute_local_name ?calls render_tokens "[Str ''blue'', Str ''Blue'']",
      unfolded Let_def]
  from inst c have "parsed (snd ?res) = parsed ?r"
    by blast
  moreover from inst a have "2 \<notin> dom (fragments ?r)"
    by blast
  ultimately show ?thesis
    using c l a e e0 unfolding render_def by simp
qed

text \<open>
  C7, as stated, fails. The claim says that a marker with no matching expression is left
  in the element as it is. The template literal \<^verbatim>\<open>html`<p>__stub-7__</p>`\<close> has no
  expression, and the element returned holds the text \<^verbatim>\<open>undefined\<close>; so does the
  element returned when the tokens of the demo, compiled for two expressions, are passed
  with one.
\<close>

theorem missing_expression_counterexample:
  \<open>firstElementChild (example_parser ''<p>__stub-7__</p>'') = Some (Element ''p'' [] [Text ''__stub-7__'']) \<and>
   returned_element (html example_parser valid_attribute_local_name (Tokens 2 [''<p>__stub-7__</p>'']) [] init_renderer)
     = Some (Element ''p'' [] [Text ''undefined'']) \<and>
   replaceStubs ''__stub-7__'' [] = ''undefined'' \<and>
   returned_element (html example_parser valid_attribute_local_name render_tokens [Str ''blue'']
       (snd (html example_parser valid_attribute_local_name render_tokens [Str ''red'', Str ''Red''] init_renderer)))
     = Some (Element ''div'' [(''class'', ''blue'')] [Text ''undefined''])\<close>
proof -
  have \<open>firstElementChild (example_parser ''<p>__stub-7__</p>'') = Some (Element ''p'' [] [Text ''__stub-7__''])\<close>
    by code_simp
  moreover have \<open>returned_element (html example_parser valid_attribute_local_name (Tokens 2 [''<p>__stub-7__</p>'']) [] init_renderer)
     = Some (Element ''p'' [] [Text ''undefined''])\<close>
    by code_simp
  moreover have "replaceStubs ''__stub-7__'' [] = ''undefined''"
    by code_simp
  moreover have "returned_element (html example_parser valid_attribute_local_name render_tokens [Str ''blue'']
       (snd (html example_parser valid_attribute_local_name render_tokens [Str ''red'', Str ''Red''] init_renderer)))
     = Some (Element ''div'' [(''class'', ''blue'')] [Text ''undefined''])"
    by code_simp
  ultimately show ?thesis
    by blast
qed

text \<open>
  C7, amended. A marker whose number has no expression (the number is not below the
  number of expressions, or is written with a leading zero) is replaced by the text
  \<^verbatim>\<open>undefined\<close>, in a string and so in the text of an element; a marker whose
  number has an expression is replaced by that expression as a string; where no marker
  starts, the character is copied. An expression whose marker does not occur in a string
  has no influence on the result.
\<close>

theorem missing_expression_undefined:
  "(length vs \<le> i \<longrightarrow>
      replaceStubs (stub i @ rest) vs = ''undefined'' @ replaceStubs rest vs \<and>
      substitute valid vs (Element tag [] [Text (stub i)]) = (None, Element tag [] [Text ''undefined''])) \<and>
   (i < length vs \<longrightarrow> replaceStubs (stub i @ rest) vs = to_string (vs ! i) @ replaceStubs rest vs) \<and>
   (\<forall>ds rest'. match_stub s = Some (ds, rest') \<and> show_nat (nat_of_digits ds) \<noteq> ds \<longrightarrow>
      replaceStubs s vs = ''undefined'' @ replaceStubs rest' vs) \<and>
   (match_stub (c # cs) = None \<longrightarrow> replaceStubs (c # cs) vs = c # replaceStubs cs vs) \<and>
   (\<not> sublist (stub i) s \<longrightarrow> replaceStubs s (vs[i := v]) = replaceStubs s vs)"
proof (intro conjI impI allI)
  assume i: "length vs \<le> i"
  then show u: "replaceStubs (stub i @ rest) vs = ''undefined'' @ replaceStubs rest vs" for rest
    by (simp add: replaceStubs_match stub_value_missing)
  from u [of "[]"] show "substitute valid vs (Element tag [] [Text (stub i)]) = (None, Element tag [] [Text ''undefined''])"
    by (simp add: substitute_no_attributes)
next
  assume "i < length vs"
  then show "replaceStubs (stub i @ rest) vs = to_string (vs ! i) @ replaceStubs rest vs"
    by (simp add: replaceStubs_match stub_value_present)
next
  fix ds rest'
  assume "match_stub s = Some (ds, rest') \<and> show_nat (nat_of_digits ds) \<noteq> ds"
  then show "replaceStubs s vs = ''undefined'' @ replaceStubs rest' vs"
    by (simp add: replaceStubs_match stub_value_def)
next
  assume "match_stub (c # cs) = None"
  then show "replaceStubs (c # cs) vs = c # replaceStubs cs vs"
    by (rule replaceStubs_no_match)
next
  assume "\<not> sublist (stub i) s"
  then show "replaceStubs s (vs[i := v]) = replaceStubs s vs"
    by (rule replaceStubs_unused)
qed

text \<open>Markers 7, 0 and 1 against one or two expressions as instances.\<close>

theorem missing_expression_undefined_witness:
  "stub 7 = ''__stub-7__'' \<and>
   replaceStubs ''__stub-7__ and __stub-0__'' [Str ''x''] = ''undefined and x'' \<and>
   replaceStubs ''__stub-0__ and __stub-1__'' [Str ''x''] = ''x and undefined'' \<and>
   replaceStubs ''a __stub-0__'' [Str ''x'', Str ''y''] = replaceStubs ''a __stub-0__'' [Str ''x'', Str ''z'']"
proof -
  have s7: "stub 7 = ''__stub-7__''" and s0: "stub 0 = ''__stub-0__''" and s1: "stub 1 = ''__stub-1__''"
    by code_simp+
  have "length [Str ''x''] \<le> (7 :: nat)"
    by simp
  with missing_expression_undefined [of "[Str ''x'']" 7 "'' and __stub-0__''"]
  have "replaceStubs (stub 7 @ '' and __stub-0__'') [Str ''x'']
      = ''undefined'' @ replaceStubs '' and __stub-0__'' [Str ''x'']"
    by blast
  moreover have "replaceStubs '' and __stub-0__'' [Str ''x''] = '' and x''"
    by code_simp
  ultimately have a: "replaceStubs ''__stub-7__ and __stub-0__'' [Str ''x''] = ''undefined and x''"
    unfolding s7 by simp
  have "(0 :: nat) < length [Str ''x'']"
    by simp
  with missing_expression_undefined [of "[Str ''x'']" 0 "'' and __stub-1__''"]
  have "replaceStubs (stub 0 @ '' and __stub-1__'') [Str ''x'']
      = to_string ([Str ''x''] ! 0) @ replaceStubs '' and __stub-1__'' [Str ''x'']"
    by blast
  moreover have "replaceStubs '' and __stub-1__'' [Str ''x''] = '' and undefined''"
    by code_simp
  ultimately have b: "replaceStubs ''__stub-0__ and __stub-1__'' [Str ''x''] = ''x and undefined''"
    unfolding s0 by simp
  have "\<not> sublist (stub 1) ''a __stub-0__''"
    unfolding s1 by code_simp
  with missing_expression_undefined [where vs = "[Str ''x'', Str ''y'']" and i = 1 and s = "''a __stub-0__''"
      and v = "Str ''z''"]
  have "replaceStubs ''a __stub-0__'' ([Str ''x'', Str ''y''][1 := Str ''z'']) =
      replaceStubs ''a __stub-0__'' [Str ''x'', Str ''y'']"
    by blast
  then have c: "replaceStubs ''a __stub-0__'' [Str ''x'', Str ''y''] = replaceStubs ''a __stub-0__'' [Str ''x'', Str ''z'']"
    by simp
  from s7 a b c show ?thesis
    by blast
qed

text \<open>
  C8, as stated, fails. The claim says that the child structure of the element is
  unchanged when its text holds no marker. The template
  \<^verbatim>\<open><div id="a"><span>hi</span><b>!</b></div>\<close> holds no marker, and the element
  returned has one text child in place of the two elements.
\<close>

theorem children_replaced_counterexample:
  \<open>firstElementChild (example_parser ''<div id="a"><span>hi</span><b>!</b></div>'')
     = Some (Element ''div'' [(''id'', ''a'')]
         [Element ''span'' [] [Text ''hi''], Element ''b'' [] [Text ''!'']]) \<and>
   \<not> has_stub (textContent (Element ''div'' [(''id'', ''a'')]
         [Element ''span'' [] [Text ''hi''], Element ''b'' [] [Text ''!'']])) \<and>
   valid_attribute_local_name ''id'' \<and>
   fst (html example_parser valid_attribute_local_name
       (Tokens 1 [''<div id="a"><span>hi</span><b>!</b></div>'']) [] init_renderer) = Inr 1 \<and>
   returned_element (html example_parser valid_attribute_local_name
       (Tokens 1 [''<div id="a"><span>hi</span><b>!</b></div>'']) [] init_renderer)
     = Some (Element ''div'' [(''id'', ''a'')] [Text ''hi!''])\<close>
proof -
  have \<open>firstElementChild (example_parser ''<div id="a"><span>hi</span><b>!</b></div>'')
     = Some (Element ''div'' [(''id'', ''a'')]
         [Element ''span'' [] [Text ''hi''], Element ''b'' [] [Text ''!'']])\<close>
    by code_simp
  moreover have "\<not> has_stub (textContent (Element ''div'' [(''id'', ''a'')]
         [Element ''span'' [] [Text ''hi''], Element ''b'' [] [Text ''!'']]))"
    by code_simp
  moreover have "valid_attribute_local_name ''id''"
    by code_simp
  moreover have \<open>fst (html example_parser valid_attribute_local_name
       (Tokens 1 [''<div id="a"><span>hi</span><b>!</b></div>'']) [] init_renderer) = Inr 1\<close>
    by code_simp
  moreover have \<open>returned_element (html example_parser valid_attribute_local_name
       (Tokens 1 [''<div id="a"><span>hi</span><b>!</b></div>'']) [] init_renderer)
     = Some (Element ''div'' [(''id'', ''a'')] [Text ''hi!''])\<close>
    by code_simp
  ultimately show ?thesis
    by (intro conjI) assumption+
qed

text \<open>
  C8, amended. For an element whose attribute names are distinct (as they are in the
  DOM): when \<^verbatim>\<open>setAttribute\<close> accepts every attribute name of the element, the
  second pass does not throw; it keeps the tag and the names and order of the attributes
  and replaces each value by the value with its markers substituted, so an attribute
  whose value holds no marker is left as cloned. The content is always rewritten: the
  children are replaced by one text node that holds the text of the element with its
  markers substituted, or by nothing when that text is empty. When the text holds no
  marker, the text of the element is therefore unchanged, and the children are unchanged
  when they were a single non-empty text node. When \<^verbatim>\<open>setAttribute\<close> does not
  accept some attribute name, the pass throws an \<^verbatim>\<open>InvalidCharacterError\<close> at the
  first such attribute: the values of the attributes before it are substituted, this
  attribute and those after it are as cloned, the children are as cloned, and no element
  is returned. For the template \<^verbatim>\<open>html`<div id="${a}" =foo="${b}">${c}</div>`\<close>,
  where the parser reads \<^verbatim>\<open>=foo\<close> as an attribute name and the check of the DOM
  standard does not accept it, \<^verbatim>\<open>html\<close> throws that error and leaves a clone whose
  first attribute is substituted and whose other parts are as cloned.
\<close>

theorem substitution_frame:
  \<open>(distinct (map fst attrs) \<longrightarrow>
     ((\<forall>name \<in> fst ` set attrs. valid name) \<longrightarrow>
        substitute valid es (Element tag attrs children) =
          (None, Element tag (map (\<lambda>(name, v). (name, replaceStubs v es)) attrs)
             (if replaceStubs (textContent (Element tag attrs children)) es = [] then []
              else [Text (replaceStubs (textContent (Element tag attrs children)) es)])) \<and>
        substituted valid es (Element tag attrs children) =
          Some (snd (substitute valid es (Element tag attrs children))) \<and>
        map fst (attributes (snd (substitute valid es (Element tag attrs children)))) = map fst attrs \<and>
        (\<forall>i < length attrs. \<not> has_stub (snd (attrs ! i)) \<longrightarrow>
           attributes (snd (substitute valid es (Element tag attrs children))) ! i = attrs ! i) \<and>
        (\<not> has_stub (textContent (Element tag attrs children)) \<longrightarrow>
           textContent (snd (substitute valid es (Element tag attrs children)))
             = textContent (Element tag attrs children) \<and>
           childNodes (snd (substitute valid es (Element tag attrs children))) =
             (if textContent (Element tag attrs children) = [] then []
              else [Text (textContent (Element tag attrs children))])) \<and>
        (\<forall>t. children = [Text t] \<and> t \<noteq> [] \<and> \<not> has_stub t \<longrightarrow>
           childNodes (snd (substitute valid es (Element tag attrs children))) = children)) \<and>
     (\<forall>j < length attrs. \<not> valid (fst (attrs ! j)) \<and> (\<forall>i < j. valid (fst (attrs ! i))) \<longrightarrow>
        substitute valid es (Element tag attrs children) =
          (Some InvalidCharacterError,
           Element tag
             (map (\<lambda>(name, v). (name, replaceStubs v es)) (take j attrs) @ drop j attrs)
             children)) \<and>
     ((\<exists>name \<in> fst ` set attrs. \<not> valid name) \<longrightarrow>
        fst (substitute valid es (Element tag attrs children)) = Some InvalidCharacterError \<and>
        substituted valid es (Element tag attrs children) = None \<and>
        childNodes (snd (substitute valid es (Element tag attrs children))) = children)) \<and>
   \<not> valid_attribute_local_name ''=foo'' \<and>
   firstElementChild (example_parser ''<div id="__stub-0__" =foo="__stub-1__">__stub-2__</div>'')
     = Some (Element ''div'' [(''id'', ''__stub-0__''), (''=foo'', ''__stub-1__'')] [Text ''__stub-2__'']) \<and>
   fst (html example_parser valid_attribute_local_name
       (Tokens 3 [''<div id="'', ''" =foo="'', ''">'', ''</div>''])
       [Str ''a'', Str ''b'', Str ''c''] init_renderer) = Inl InvalidCharacterError \<and>
   fragments (snd (html example_parser valid_attribute_local_name
       (Tokens 3 [''<div id="'', ''" =foo="'', ''">'', ''</div>''])
       [Str ''a'', Str ''b'', Str ''c''] init_renderer)) 1
     = Some [Element ''div'' [(''id'', ''a''), (''=foo'', ''__stub-1__'')] [Text ''__stub-2__'']]\<close>
proof (rule conjI, rule impI)
  assume d: "distinct (map fst attrs)"
  let ?e = "Element tag attrs children"
  let ?t = "replaceStubs (textContent ?e) es"
  let ?f = "\<lambda>(name, v). (name, replaceStubs v es)"
  have ok: "substitute valid es ?e =
          (None, Element tag (map ?f attrs) (if ?t = [] then [] else [Text ?t])) \<and>
        substituted valid es ?e = Some (snd (substitute valid es ?e)) \<and>
        map fst (attributes (snd (substitute valid es ?e))) = map fst attrs \<and>
        (\<forall>i < length attrs. \<not> has_stub (snd (attrs ! i)) \<longrightarrow>
           attributes (snd (substitute valid es ?e)) ! i = attrs ! i) \<and>
        (\<not> has_stub (textContent ?e) \<longrightarrow>
           textContent (snd (substitute valid es ?e)) = textContent ?e \<and>
           childNodes (snd (substitute valid es ?e)) =
             (if textContent ?e = [] then [] else [Text (textContent ?e)])) \<and>
        (\<forall>t. children = [Text t] \<and> t \<noteq> [] \<and> \<not> has_stub t \<longrightarrow>
           childNodes (snd (substitute valid es ?e)) = children)"
    if v: "\<forall>name \<in> fst ` set attrs. valid name"
  proof -
    have s: "substitute valid es ?e =
        (None, Element tag (map ?f attrs) (if ?t = [] then [] else [Text ?t]))"
      using d v by (simp add: substitute_Element replace_attributes_map)
    then have sd: "substituted valid es ?e = Some (snd (substitute valid es ?e))"
      by (simp add: substituted_fst)
    have n: "map fst (attributes (snd (substitute valid es ?e))) = map fst attrs"
      unfolding s by (simp add: case_prod_unfold)
    have a: "attributes (snd (substitute valid es ?e)) ! i = attrs ! i"
      if "i < length attrs" "\<not> has_stub (snd (attrs ! i))" for i
      unfolding s using that by (simp add: case_prod_unfold replaceStubs_no_stub)
    have t: "textContent (snd (substitute valid es ?e)) = textContent ?e \<and>
          childNodes (snd (substitute valid es ?e)) =
            (if textContent ?e = [] then [] else [Text (textContent ?e)])"
      if "\<not> has_stub (textContent ?e)"
    proof -
      from that have "?t = textContent ?e" by (rule replaceStubs_no_stub)
      then show ?thesis unfolding s by simp
    qed
    have c: "childNodes (snd (substitute valid es ?e)) = children"
      if "children = [Text t] \<and> t \<noteq> [] \<and> \<not> has_stub t" for t
    proof -
      from that have "textContent ?e = t" by simp
      moreover from that have "replaceStubs t es = t" by (simp add: replaceStubs_no_stub)
      ultimately show ?thesis unfolding s using that by simp
    qed
    from s sd n a t c show ?thesis
      by blast
  qed
  have throw: "substitute valid es ?e =
      (Some InvalidCharacterError, Element tag (map ?f (take j attrs) @ drop j attrs) children)"
    if "j < length attrs" and "\<not> valid (fst (attrs ! j)) \<and> (\<forall>i < j. valid (fst (attrs ! i)))" for j
    using d that by (simp add: substitute_Element replace_attributes_throw)
  have some: "fst (substitute valid es ?e) = Some InvalidCharacterError \<and>
        substituted valid es ?e = None \<and>
        childNodes (snd (substitute valid es ?e)) = children"
    if "\<exists>name \<in> fst ` set attrs. \<not> valid name"
  proof -
    from that obtain p where "p \<in> set attrs" and p: "\<not> valid (fst p)"
      by auto
    then obtain i where "i < length attrs" and "attrs ! i = p"
      by (auto simp: in_set_conv_nth)
    with p have i: "i < length attrs \<and> \<not> valid (fst (attrs ! i))"
      by simp
    define j where "j = (LEAST j. j < length attrs \<and> \<not> valid (fst (attrs ! j)))"
    from i have j: "j < length attrs \<and> \<not> valid (fst (attrs ! j))"
      unfolding j_def by (rule LeastI)
    have "valid (fst (attrs ! i'))" if "i' < j" for i'
    proof (rule ccontr)
      assume "\<not> valid (fst (attrs ! i'))"
      with that j have "i' < length attrs \<and> \<not> valid (fst (attrs ! i'))"
        by simp
      then have "j \<le> i'"
        unfolding j_def by (rule Least_le)
      with that show False by simp
    qed
    with j have "substitute valid es ?e =
        (Some InvalidCharacterError, Element tag (map ?f (take j attrs) @ drop j attrs) children)"
      by (intro throw) simp_all
    then show ?thesis
      by (simp add: substituted_fst)
  qed
  from ok throw some
  show "((\<forall>name \<in> fst ` set attrs. valid name) \<longrightarrow>
        substitute valid es ?e =
          (None, Element tag (map ?f attrs) (if ?t = [] then [] else [Text ?t])) \<and>
        substituted valid es ?e = Some (snd (substitute valid es ?e)) \<and>
        map fst (attributes (snd (substitute valid es ?e))) = map fst attrs \<and>
        (\<forall>i < length attrs. \<not> has_stub (snd (attrs ! i)) \<longrightarrow>
           attributes (snd (substitute valid es ?e)) ! i = attrs ! i) \<and>
        (\<not> has_stub (textContent ?e) \<longrightarrow>
           textContent (snd (substitute valid es ?e)) = textContent ?e \<and>
           childNodes (snd (substitute valid es ?e)) =
             (if textContent ?e = [] then [] else [Text (textContent ?e)])) \<and>
        (\<forall>t. children = [Text t] \<and> t \<noteq> [] \<and> \<not> has_stub t \<longrightarrow>
           childNodes (snd (substitute valid es ?e)) = children)) \<and>
     (\<forall>j < length attrs. \<not> valid (fst (attrs ! j)) \<and> (\<forall>i < j. valid (fst (attrs ! i))) \<longrightarrow>
        substitute valid es ?e =
          (Some InvalidCharacterError,
           Element tag (map ?f (take j attrs) @ drop j attrs) children)) \<and>
     ((\<exists>name \<in> fst ` set attrs. \<not> valid name) \<longrightarrow>
        fst (substitute valid es ?e) = Some InvalidCharacterError \<and>
        substituted valid es ?e = None \<and>
        childNodes (snd (substitute valid es ?e)) = children)"
    by (intro conjI impI allI) blast+
next
  have \<open>\<not> valid_attribute_local_name ''=foo''\<close>
    by code_simp
  moreover have \<open>firstElementChild (example_parser ''<div id="__stub-0__" =foo="__stub-1__">__stub-2__</div>'')
     = Some (Element ''div'' [(''id'', ''__stub-0__''), (''=foo'', ''__stub-1__'')] [Text ''__stub-2__''])\<close>
    by code_simp
  moreover have \<open>fst (html example_parser valid_attribute_local_name
       (Tokens 3 [''<div id="'', ''" =foo="'', ''">'', ''</div>''])
       [Str ''a'', Str ''b'', Str ''c''] init_renderer) = Inl InvalidCharacterError\<close>
    by code_simp
  moreover have \<open>fragments (snd (html example_parser valid_attribute_local_name
       (Tokens 3 [''<div id="'', ''" =foo="'', ''">'', ''</div>''])
       [Str ''a'', Str ''b'', Str ''c''] init_renderer)) 1
     = Some [Element ''div'' [(''id'', ''a''), (''=foo'', ''__stub-1__'')] [Text ''__stub-2__'']]\<close>
    by code_simp
  ultimately show \<open>\<not> valid_attribute_local_name ''=foo'' \<and>
   firstElementChild (example_parser ''<div id="__stub-0__" =foo="__stub-1__">__stub-2__</div>'')
     = Some (Element ''div'' [(''id'', ''__stub-0__''), (''=foo'', ''__stub-1__'')] [Text ''__stub-2__'']) \<and>
   fst (html example_parser valid_attribute_local_name
       (Tokens 3 [''<div id="'', ''" =foo="'', ''">'', ''</div>''])
       [Str ''a'', Str ''b'', Str ''c''] init_renderer) = Inl InvalidCharacterError \<and>
   fragments (snd (html example_parser valid_attribute_local_name
       (Tokens 3 [''<div id="'', ''" =foo="'', ''">'', ''</div>''])
       [Str ''a'', Str ''b'', Str ''c''] init_renderer)) 1
     = Some [Element ''div'' [(''id'', ''a''), (''=foo'', ''__stub-1__'')] [Text ''__stub-2__'']]\<close>
    by (intro conjI) assumption+
qed

text \<open>
  An element with one attribute without a marker and one with a marker as an instance,
  once with two element children and once with a single text child. And the template
  \<^verbatim>\<open>html`<div id="${a}" =foo="${b}">${c}</div>`\<close>, whose second attribute has a
  name that \<^verbatim>\<open>setAttribute\<close> does not accept: the pass throws with the first
  attribute substituted and the rest as cloned, and so does \<^verbatim>\<open>html\<close>.
\<close>

theorem substitution_frame_witness:
  \<open>valid_attribute_local_name ''id'' \<and> valid_attribute_local_name ''class'' \<and>
   substitute valid_attribute_local_name [Str ''red'']
       (Element ''div'' [(''id'', ''a''), (''class'', ''__stub-0__'')]
          [Element ''span'' [] [Text ''hi''], Element ''b'' [] [Text ''!'']])
     = (None, Element ''div'' [(''id'', ''a''), (''class'', ''red'')] [Text ''hi!'']) \<and>
   attributes (snd (substitute valid_attribute_local_name [Str ''red'']
       (Element ''div'' [(''id'', ''a''), (''class'', ''__stub-0__'')]
          [Element ''span'' [] [Text ''hi''], Element ''b'' [] [Text ''!'']]))) ! 0 = (''id'', ''a'') \<and>
   textContent (snd (substitute valid_attribute_local_name [Str ''red'']
       (Element ''div'' [(''id'', ''a''), (''class'', ''__stub-0__'')]
          [Element ''span'' [] [Text ''hi''], Element ''b'' [] [Text ''!'']]))) = ''hi!'' \<and>
   childNodes (snd (substitute valid_attribute_local_name [Str ''red'']
       (Element ''div'' [(''id'', ''a''), (''class'', ''__stub-0__'')] [Text ''hi''])))
     = [Text ''hi''] \<and>
   \<not> valid_attribute_local_name ''=foo'' \<and>
   substitute valid_attribute_local_name [Str ''a'', Str ''b'', Str ''c'']
       (Element ''div'' [(''id'', ''__stub-0__''), (''=foo'', ''__stub-1__'')] [Text ''__stub-2__''])
     = (Some InvalidCharacterError,
        Element ''div'' [(''id'', ''a''), (''=foo'', ''__stub-1__'')] [Text ''__stub-2__'']) \<and>
   substituted valid_attribute_local_name [Str ''a'', Str ''b'', Str ''c'']
       (Element ''div'' [(''id'', ''__stub-0__''), (''=foo'', ''__stub-1__'')] [Text ''__stub-2__''])
     = None \<and>
   firstElementChild (example_parser ''<div id="__stub-0__" =foo="__stub-1__">__stub-2__</div>'')
     = Some (Element ''div'' [(''id'', ''__stub-0__''), (''=foo'', ''__stub-1__'')] [Text ''__stub-2__'']) \<and>
   fst (html example_parser valid_attribute_local_name
       (Tokens 3 [''<div id="'', ''" =foo="'', ''">'', ''</div>''])
       [Str ''a'', Str ''b'', Str ''c''] init_renderer) = Inl InvalidCharacterError \<and>
   returned_element (html example_parser valid_attribute_local_name
       (Tokens 3 [''<div id="'', ''" =foo="'', ''">'', ''</div>''])
       [Str ''a'', Str ''b'', Str ''c''] init_renderer) = None\<close>
proof -
  let ?valid = valid_attribute_local_name
  let ?attrs = "[(''id'', ''a''), (''class'', ''__stub-0__'')]"
  let ?children = "[Element ''span'' [] [Text ''hi''], Element ''b'' [] [Text ''!'']]"
  let ?bad = "[(''id'', ''__stub-0__''), (''=foo'', ''__stub-1__'')]"
  let ?abc = "[Str ''a'', Str ''b'', Str ''c'']"
  have v1: "?valid ''id''" and v2: "?valid ''class''" and v3: "\<not> ?valid ''=foo''"
    by code_simp+
  have d: "distinct (map fst ?attrs)" and d': "distinct (map fst ?bad)"
    by simp_all
  from v1 v2 have v: "\<forall>name \<in> fst ` set ?attrs. ?valid name"
    by simp
  have h: "\<not> has_stub (snd (?attrs ! 0))"
    by code_simp
  have h2: "\<not> has_stub ''hi''"
    by code_simp
  have r1: "replaceStubs ''a'' [Str ''red''] = ''a''" and r2: "replaceStubs ''__stub-0__'' [Str ''red''] = ''red''"
    and r3: "replaceStubs ''hi!'' [Str ''red''] = ''hi!''"
    and r4: "replaceStubs ''__stub-0__'' ?abc = ''a''"
    by code_simp+
  note inst = substitution_frame [where attrs = ?attrs and valid = ?valid and es = "[Str ''red'']"
      and tag = "''div''" and children = ?children, THEN conjunct1, THEN mp, OF d, THEN conjunct1, THEN mp, OF v]
  from inst [THEN conjunct1]
  have a: "substitute ?valid [Str ''red''] (Element ''div'' ?attrs ?children)
      = (None, Element ''div'' [(''id'', ''a''), (''class'', ''red'')] [Text ''hi!''])"
    by (simp add: r1 r2 r3)
  have "0 < length ?attrs"
    by simp
  from inst [THEN conjunct2, THEN conjunct2, THEN conjunct2, THEN conjunct1, rule_format, OF this h]
  have b: "attributes (snd (substitute ?valid [Str ''red''] (Element ''div'' ?attrs ?children))) ! 0
      = (''id'', ''a'')"
    by simp
  have h3: "\<not> has_stub (textContent (Element ''div'' ?attrs ?children))"
    by code_simp
  from inst [THEN conjunct2, THEN conjunct2, THEN conjunct2, THEN conjunct2, THEN conjunct1,
      THEN mp, OF h3, THEN conjunct1]
  have tc: "textContent (snd (substitute ?valid [Str ''red''] (Element ''div'' ?attrs ?children))) = ''hi!''"
    by simp
  have t: "[Text ''hi''] = [Text ''hi''] \<and> ''hi'' \<noteq> [] \<and> \<not> has_stub ''hi''"
    using h2 by simp
  from substitution_frame [where attrs = ?attrs and valid = ?valid and es = "[Str ''red'']"
      and tag = "''div''" and children = "[Text ''hi'']", THEN conjunct1, THEN mp, OF d, THEN conjunct1, THEN mp, OF v,
      THEN conjunct2, THEN conjunct2, THEN conjunct2, THEN conjunct2, THEN conjunct2, rule_format, OF t]
  have c: "childNodes (snd (substitute ?valid [Str ''red''] (Element ''div'' ?attrs [Text ''hi''])))
      = [Text ''hi'']" .
  note bad = substitution_frame [where attrs = ?bad and valid = ?valid and es = ?abc
      and tag = "''div''" and children = "[Text ''__stub-2__'']", THEN conjunct1, THEN mp, OF d', THEN conjunct2]
  have j: "(1 :: nat) < length ?bad"
    by simp
  from v1 v3 have first: "\<not> ?valid (fst (?bad ! 1)) \<and> (\<forall>i < (1 :: nat). ?valid (fst (?bad ! i)))"
    by simp
  from bad [THEN conjunct1, rule_format, OF j first]
  have e: "substitute ?valid ?abc (Element ''div'' ?bad [Text ''__stub-2__''])
      = (Some InvalidCharacterError,
         Element ''div'' [(''id'', ''a''), (''=foo'', ''__stub-1__'')] [Text ''__stub-2__''])"
    by (simp add: r4)
  from v3 have ex: "\<exists>name \<in> fst ` set ?bad. \<not> ?valid name"
    by simp
  from bad [THEN conjunct2, THEN mp, OF ex]
  have f: "substituted ?valid ?abc (Element ''div'' ?bad [Text ''__stub-2__'']) = None"
    by (elim conjE) assumption
  have p: \<open>firstElementChild (example_parser ''<div id="__stub-0__" =foo="__stub-1__">__stub-2__</div>'')
     = Some (Element ''div'' ?bad [Text ''__stub-2__''])\<close>
    by code_simp
  have g: \<open>fst (html example_parser ?valid (Tokens 3 [''<div id="'', ''" =foo="'', ''">'', ''</div>''])
       ?abc init_renderer) = Inl InvalidCharacterError\<close>
    by code_simp
  have g2: \<open>returned_element (html example_parser ?valid
       (Tokens 3 [''<div id="'', ''" =foo="'', ''">'', ''</div>'']) ?abc init_renderer) = None\<close>
    by code_simp
  from v1 v2 a b tc c v3 e f p g g2 show ?thesis
    by (intro conjI) assumption+
qed

end
